theory Spec2Isabelle
  imports Main "HOL-Library.Multiset"
begin

section \<open>The value graph that reflection walks\<close>

text \<open>
  The package \<^verbatim>\<open>configtest\<close> walks a Go value through \<^verbatim>\<open>reflect\<close>. The store below
  is the memory those walks read and write: every variable (a struct field, a slice
  element, the box behind an interface, a map key or value) is a location, and a node
  says what is stored there together with the name of its static type, as
  \<^verbatim>\<open>reflect.Type.String\<close> prints it. Type identity is the type's name.

  Slices whose elements are of kind String are kept by value (\<open>NStrings\<close>): the walks
  never write such an element, only the whole slice. Struct types have no promoted
  fields here (a field is found by name among the direct fields only), and
  identifiers are ASCII.
\<close>

type_synonym loc = nat
type_synonym tname = string

datatype node =
    NString tname string
  | NStrings tname tname "string list option"
  | NScalar tname
  | NOpaque tname bool
  | NPtr tname "loc option"
  | NStruct tname "(string \<times> loc) list" "(string \<times> loc option) list"
  | NMap tname "(loc \<times> loc) list option"
  | NSlice tname "loc list option"
  | NArray tname "loc list"
  | NIface tname "loc option"

type_synonym store = "loc \<rightharpoonup> node"

text \<open>\<open>NStruct t fs pr\<close>: a struct of type \<open>t\<close>; \<open>fs\<close> are its fields in the order of
  their declaration, each with the location of its value; \<open>pr\<close> are the fields promoted
  from embedded structs, as \<^verbatim>\<open>FieldByName\<close> of package \<^verbatim>\<open>reflect\<close> finds them: each with the
  location of its value, or \<open>None\<close> when the way to it goes through an embedded pointer
  that is nil.
  \<open>NStrings t e xs\<close>: a slice of type \<open>t\<close> with elements of the string type \<open>e\<close>;
  \<open>NOpaque t nil\<close>: a chan, func or unsafe pointer and whether it is nil;
  \<open>NScalar\<close>: any other kind (bool, numbers, ...).\<close>

fun type_name :: "node \<Rightarrow> tname" where
  "type_name (NString t _) = t"
| "type_name (NStrings t _ _) = t"
| "type_name (NScalar t) = t"
| "type_name (NOpaque t _) = t"
| "type_name (NPtr t _) = t"
| "type_name (NStruct t _ _) = t"
| "type_name (NMap t _) = t"
| "type_name (NSlice t _) = t"
| "type_name (NArray t _) = t"
| "type_name (NIface t _) = t"

definition stringTyp :: tname where
  "stringTyp = ''string''"

definition stringSliceTyp :: tname where
  "stringSliceTyp = ''[]string''"

datatype err = OutOfFuel | BadStore | Panic | InvalidStruct tname | InvalidField string tname

text \<open>\<open>OutOfFuel\<close> is the model's own: the recursion went deeper than the fuel given.
  \<open>BadStore\<close> is a read of a location the store does not hold. The others are panics.\<close>

subsection \<open>Field options\<close>

type_synonym field = "tname \<times> string"

record fields =
  incl :: "field \<Rightarrow> bool"
  excl :: "field \<Rightarrow> bool"

type_synonym FieldOption = "fields \<Rightarrow> fields"

text \<open>A type, as far as \<open>structField\<close> looks at it: a pointer type, a struct type with its
  name and the names that \<^verbatim>\<open>typ.FieldByName\<close> finds on it (the names of its fields and of the
  fields promoted from embedded structs), or a type of another kind with its name.\<close>

datatype rtype = TPtr rtype | TStruct tname "string list" | TOther tname

fun rtype_name :: "rtype \<Rightarrow> tname" where
  "rtype_name (TPtr t) = CHR ''*'' # rtype_name t"
| "rtype_name (TStruct n _) = n"
| "rtype_name (TOther n) = n"

fun ptrType :: "rtype \<Rightarrow> rtype" where
  "ptrType (TPtr t) = ptrType t"
| "ptrType t = t"

text \<open>\<open>structField\<close> takes the type of the sample value, \<open>None\<close> for a nil interface
  (\<^verbatim>\<open>reflect.TypeOf(nil)\<close> is nil and its \<^verbatim>\<open>Kind\<close> call panics).\<close>

definition structField :: "rtype option \<Rightarrow> string \<Rightarrow> err + field" where
  "structField strukt name =
     (case strukt of
        None \<Rightarrow> Inl Panic
      | Some t \<Rightarrow>
          (case ptrType t of
             TStruct n fs \<Rightarrow>
               if name \<in> set fs then Inr (n, name) else Inl (InvalidField name n)
           | typ \<Rightarrow> Inl (InvalidStruct (rtype_name typ))))"

definition includeOpt :: "field \<Rightarrow> FieldOption" where
  "includeOpt key = (\<lambda>opts. opts\<lparr>incl := (incl opts)(key := True)\<rparr>)"

definition excludeOpt :: "field \<Rightarrow> FieldOption" where
  "excludeOpt key = (\<lambda>opts. opts\<lparr>excl := (excl opts)(key := True)\<rparr>)"

definition IncludeField :: "rtype option \<Rightarrow> string \<Rightarrow> err + FieldOption" where
  "IncludeField strukt name =
     (case structField strukt name of Inl e \<Rightarrow> Inl e | Inr key \<Rightarrow> Inr (includeOpt key))"

definition ExcludeField :: "rtype option \<Rightarrow> string \<Rightarrow> err + FieldOption" where
  "ExcludeField strukt name =
     (case structField strukt name of Inl e \<Rightarrow> Inl e | Inr key \<Rightarrow> Inr (excludeOpt key))"

definition noFields :: fields where
  "noFields = \<lparr>incl = (\<lambda>_. False), excl = (\<lambda>_. False)\<rparr>"

definition applyOptions :: "FieldOption list \<Rightarrow> fields" where
  "applyOptions options = fold (\<lambda>fn opts. fn opts) options noFields"

subsection \<open>Strings\<close>

definition hasSuffix :: "string \<Rightarrow> string \<Rightarrow> bool" where
  "hasSuffix s suf = (length suf \<le> length s \<and> drop (length s - length suf) s = suf)"

definition trimSuffix :: "string \<Rightarrow> string \<Rightarrow> string" where
  "trimSuffix s suf = (if hasSuffix s suf then take (length s - length suf) s else s)"

definition isUpper :: "char \<Rightarrow> bool" where
  "isUpper c = (c \<in> set ''ABCDEFGHIJKLMNOPQRSTUVWXYZ'')"

text \<open>A field can be set through reflection only when its name is exported: when it
  starts with an upper-case letter.\<close>

definition exported :: "string \<Rightarrow> bool" where
  "exported name = (case name of [] \<Rightarrow> False | c # _ \<Rightarrow> isUpper c)"

definition digit :: "nat \<Rightarrow> char" where
  "digit d = char_of (48 + d)"

fun showNat :: "nat \<Rightarrow> string" where
  "showNat n = (if n < 10 then [digit n] else showNat (n div 10) @ [digit (n mod 10)])"

declare showNat.simps [simp del]

subsection \<open>The state of one walk\<close>

datatype recv = RPtr tname "loc option" | RVal tname loc | RElem tname loc nat

text \<open>The receiver of a capability call: a pointer value (\<open>RPtr t p\<close>, of pointer type
  \<open>t\<close>), a value that is not a pointer, as stored at a location, or the address of an
  element of a by-value string slice.\<close>

fun recv_type :: "recv \<Rightarrow> tname" where
  "recv_type (RPtr t _) = t"
| "recv_type (RVal t _) = t"
| "recv_type (RElem t _ _) = t"

type_synonym failure = "string \<times> string \<times> string"

record state =
  heap :: store
  seen :: "(tname \<times> loc) list"
  reported :: "failure list"
  calls :: "(recv \<times> string) list"

text \<open>\<open>seen\<close> is the source's \<^verbatim>\<open>set\<close>, newest key first: a key is a pointer value, its
  type and the location it points to. \<open>reported\<close> is what \<^verbatim>\<open>t.Errorf\<close> was given, as
  (place, got, want). \<open>calls\<close> lists the capability calls made, in order.\<close>

record env =
  implements :: "tname \<Rightarrow> bool"
  applyDirectory :: "recv \<Rightarrow> string \<Rightarrow> store \<Rightarrow> store"
  formatValue :: "store \<Rightarrow> loc \<Rightarrow> string"

text \<open>The collaborators the package only calls: which types have the method
  \<^verbatim>\<open>SetDirectory\<close>, what a call of it does to the store, and how \<^verbatim>\<open>%v\<close> prints a
  map key.\<close>

fun isNil :: "node \<Rightarrow> bool" where
  "isNil (NPtr _ p) = (p = None)"
| "isNil (NMap _ m) = (m = None)"
| "isNil (NSlice _ xs) = (xs = None)"
| "isNil (NStrings _ _ xs) = (xs = None)"
| "isNil (NIface _ b) = (b = None)"
| "isNil (NOpaque _ nil) = nil"
| "isNil _ = False"

primrec forEach :: "('a \<Rightarrow> 's \<Rightarrow> err + 's) \<Rightarrow> 'a list \<Rightarrow> 's \<Rightarrow> err + 's" where
  "forEach body [] s = Inr s"
| "forEach body (x # xs) s =
     (case body x s of Inl e \<Rightarrow> Inl e | Inr s' \<Rightarrow> forEach body xs s')"

text \<open>\<^verbatim>\<open>val.Len()\<close>, \<^verbatim>\<open>val.Index(i)\<close> and \<^verbatim>\<open>val.MapKeys()\<close>, \<^verbatim>\<open>val.MapIndex(key)\<close> read the
  store as it is when they are called. An element of a slice is addressable; an element
  of an array is as addressable as the array; a map value is not.\<close>

definition seqLen :: "node \<Rightarrow> nat" where
  "seqLen nd = (case nd of NSlice _ (Some es) \<Rightarrow> length es | NArray _ es \<Rightarrow> length es | _ \<Rightarrow> 0)"

definition seqIndex :: "store \<Rightarrow> loc \<Rightarrow> bool \<Rightarrow> nat \<Rightarrow> err + loc \<times> bool" where
  "seqIndex h l a i =
     (case h l of
        Some (NSlice _ (Some es)) \<Rightarrow> if i < length es then Inr (es ! i, True) else Inl Panic
      | Some (NArray _ es) \<Rightarrow> if i < length es then Inr (es ! i, a) else Inl Panic
      | Some _ \<Rightarrow> Inl Panic
      | None \<Rightarrow> Inl BadStore)"

definition mapKeys :: "node \<Rightarrow> loc list" where
  "mapKeys nd = (case nd of NMap _ (Some kvs) \<Rightarrow> map fst kvs | _ \<Rightarrow> [])"

definition mapIndex :: "store \<Rightarrow> loc \<Rightarrow> loc \<Rightarrow> err + loc" where
  "mapIndex h l k =
     (case h l of
        Some (NMap _ (Some kvs)) \<Rightarrow> (case map_of kvs k of Some v \<Rightarrow> Inr v | None \<Rightarrow> Inl Panic)
      | Some _ \<Rightarrow> Inl Panic
      | None \<Rightarrow> Inl BadStore)"

section \<open>SetFile\<close>

fun is_stringTyp :: "node \<Rightarrow> bool" where
  "is_stringTyp (NString t _) = (t = stringTyp)"
| "is_stringTyp _ = False"

fun is_stringSliceTyp :: "node \<Rightarrow> bool" where
  "is_stringSliceTyp (NStrings t _ _) = (t = stringSliceTyp)"
| "is_stringSliceTyp _ = False"

text \<open>\<^verbatim>\<open>val.FieldByName(name)\<close> is \<open>map_of (byName fs pr) name\<close>: a field of the struct
  itself comes before a promoted field of the same name. \<open>None\<close> is the invalid value
  (no such field); \<open>Some None\<close> is the panic of \<^verbatim>\<open>FieldByName\<close> on a nil embedded pointer.\<close>

definition byName :: "(string \<times> loc) list \<Rightarrow> (string \<times> loc option) list \<Rightarrow> (string \<times> loc option) list" where
  "byName fs pr = map (\<lambda>f. (fst f, Some (snd f))) fs @ pr"

text \<open>\<^verbatim>\<open>sf := val.FieldByName(...)\<close>; if it is valid and of kind String,
  \<^verbatim>\<open>sf.SetString("")\<close>, which panics on a field that cannot be set. \<open>fs\<close> is what
  \<^verbatim>\<open>FieldByName\<close> looks the name up in.\<close>

definition clearSibling :: "(string \<times> loc option) list \<Rightarrow> string \<Rightarrow> state \<Rightarrow> err + state" where
  "clearSibling fs name s =
     (case map_of fs name of
        None \<Rightarrow> Inr s
      | Some None \<Rightarrow> Inl Panic
      | Some (Some sf) \<Rightarrow>
          (case heap s sf of
             None \<Rightarrow> Inl BadStore
           | Some (NString t _) \<Rightarrow>
               if exported name then Inr (s\<lparr>heap := (heap s)(sf \<mapsto> NString t [])\<rparr>) else Inl Panic
           | Some _ \<Rightarrow> Inr s))"

text \<open>The body of the loop over the fields of a struct. \<open>a\<close> says whether the struct
  value is addressable; \<open>recur\<close> is the recursive call.\<close>

definition setFile_field ::
  "(loc \<Rightarrow> bool \<Rightarrow> state \<Rightarrow> err + state) \<Rightarrow> string \<Rightarrow> fields \<Rightarrow> tname \<Rightarrow>
     (string \<times> loc option) list \<Rightarrow> bool \<Rightarrow> string \<times> loc \<Rightarrow> state \<Rightarrow> err + state" where
  "setFile_field recur file opts typ fs a tf s =
     (let name = fst tf; vf = snd tf; key = (typ, name) in
      if \<not> (a \<and> exported name) \<or> excl opts key then Inr s
      else
        (case heap s vf of
           None \<Rightarrow> Inl BadStore
         | Some fnode \<Rightarrow>
             if is_stringTyp fnode \<and> (hasSuffix name ''File'' \<or> incl opts key) then
               (case clearSibling fs (trimSuffix name ''File'') s of
                  Inl e \<Rightarrow> Inl e
                | Inr s1 \<Rightarrow> Inr (s1\<lparr>heap := (heap s1)(vf \<mapsto> NString stringTyp file)\<rparr>))
             else if is_stringSliceTyp fnode \<and> (hasSuffix name ''Files'' \<or> incl opts key) then
               Inr (s\<lparr>heap := (heap s)(vf \<mapsto> NStrings stringSliceTyp stringTyp (Some [file]))\<rparr>)
             else recur vf a s))"

text \<open>The bodies of the loops over the keys of a map and over the indices of a slice or
  array, as \<open>setFile\<close> and \<open>setDirectory\<close> both have them.\<close>

definition eachEntry ::
  "(loc \<Rightarrow> bool \<Rightarrow> state \<Rightarrow> err + state) \<Rightarrow> loc \<Rightarrow> loc \<Rightarrow> state \<Rightarrow> err + state" where
  "eachEntry recur l key s =
     (case recur key False s of
        Inl e \<Rightarrow> Inl e
      | Inr s1 \<Rightarrow>
          (case mapIndex (heap s1) l key of
             Inl e \<Rightarrow> Inl e
           | Inr v \<Rightarrow> recur v False s1))"

definition eachElem ::
  "(loc \<Rightarrow> bool \<Rightarrow> state \<Rightarrow> err + state) \<Rightarrow> loc \<Rightarrow> bool \<Rightarrow> nat \<Rightarrow> state \<Rightarrow> err + state" where
  "eachElem recur l a i s =
     (case seqIndex (heap s) l a i of
        Inl e \<Rightarrow> Inl e
      | Inr (el, ea) \<Rightarrow> recur el ea s)"

fun setFile :: "nat \<Rightarrow> string \<Rightarrow> fields \<Rightarrow> loc \<Rightarrow> bool \<Rightarrow> state \<Rightarrow> err + state" where
  "setFile 0 file opts l a s = Inl OutOfFuel"
| "setFile (Suc n) file opts l a s =
     (case heap s l of
        None \<Rightarrow> Inl BadStore
      | Some nd \<Rightarrow>
          if isNil nd then Inr s
          else
            (case nd of
               NPtr t p \<Rightarrow>
                 (case p of
                    None \<Rightarrow> Inr s
                  | Some q \<Rightarrow>
                      if (t, q) \<in> set (seen s) then Inr s
                      else setFile n file opts q True (s\<lparr>seen := (t, q) # seen s\<rparr>))
             | NStruct t fs pr \<Rightarrow>
                 forEach (setFile_field (setFile n file opts) file opts t (byName fs pr) a) fs s
             | NMap t m \<Rightarrow>
                 forEach (eachEntry (setFile n file opts) l) (mapKeys nd) s
             | NSlice t es \<Rightarrow>
                 forEach (eachElem (setFile n file opts) l a) [0..<seqLen nd] s
             | NArray t es \<Rightarrow>
                 forEach (eachElem (setFile n file opts) l a) [0..<seqLen nd] s
             | NIface t b \<Rightarrow>
                 (case b of None \<Rightarrow> Inr s | Some c \<Rightarrow> setFile n file opts c False s)
             | _ \<Rightarrow> Inr s))"

definition newState :: "store \<Rightarrow> state" where
  "newState h = \<lparr>heap = h, seen = [], reported = [], calls = []\<rparr>"

text \<open>\<open>config\<close> is the location of the value the interface argument holds, \<open>None\<close> for
  a nil interface, on which \<^verbatim>\<open>val.Type()\<close> panics.\<close>

definition SetFile :: "nat \<Rightarrow> loc option \<Rightarrow> string \<Rightarrow> FieldOption list \<Rightarrow> store \<Rightarrow> err + state" where
  "SetFile n config path options h =
     (case config of
        None \<Rightarrow> Inl Panic
      | Some l \<Rightarrow> setFile n path (applyOptions options) l False (newState h))"

section \<open>AssertFile\<close>

fun ifaceType :: "nat \<Rightarrow> store \<Rightarrow> loc \<Rightarrow> err + tname" where
  "ifaceType 0 h l = Inl OutOfFuel"
| "ifaceType (Suc n) h l =
     (case h l of
        None \<Rightarrow> Inl BadStore
      | Some nd \<Rightarrow>
          (case nd of
             NIface t (Some c) \<Rightarrow> ifaceType n h c
           | _ \<Rightarrow> Inr (type_name nd)))"

definition errorf :: "failure \<Rightarrow> state \<Rightarrow> state" where
  "errorf f s = s\<lparr>reported := reported s @ [f]\<rparr>"

fun stringOf :: "node \<Rightarrow> string" where
  "stringOf (NString _ x) = x"
| "stringOf _ = []"

fun stringsOf :: "node \<Rightarrow> string list" where
  "stringsOf (NStrings _ _ (Some xs)) = xs"
| "stringsOf _ = []"

text \<open>One round of the loop over a \<^verbatim>\<open>[]string\<close> field: \<open>place\<close> is \<^verbatim>\<open>path.Name\<close>.\<close>

definition assertFile_string ::
  "string \<Rightarrow> string \<Rightarrow> nat \<times> string \<Rightarrow> bool \<times> state \<Rightarrow> err + bool \<times> state" where
  "assertFile_string place want jx acc =
     (let j = fst jx; got = snd jx in
      if got \<noteq> want
      then Inr (False, errorf (place @ ''['' @ showNat j @ '']'', got, want) (snd acc))
      else Inr acc)"

definition assertFile_field ::
  "(string \<Rightarrow> loc \<Rightarrow> bool \<Rightarrow> state \<Rightarrow> err + bool \<times> state) \<Rightarrow> string \<Rightarrow> string \<Rightarrow> fields \<Rightarrow>
     tname \<Rightarrow> bool \<Rightarrow> string \<times> loc \<Rightarrow> bool \<times> state \<Rightarrow> err + bool \<times> state" where
  "assertFile_field recur path want opts typ a tf acc =
     (let name = fst tf; vf = snd tf; key = (typ, name); s = snd acc in
      if \<not> (a \<and> exported name) \<or> excl opts key then Inr acc
      else
        (case heap s vf of
           None \<Rightarrow> Inl BadStore
         | Some fnode \<Rightarrow>
             if is_stringTyp fnode \<and> (hasSuffix name ''File'' \<or> incl opts key) then
               (let got = stringOf fnode in
                if got \<noteq> want then Inr (False, errorf (path @ ''.'' @ name, got, want) s)
                else Inr acc)
             else if is_stringSliceTyp fnode \<and> (hasSuffix name ''Files'' \<or> incl opts key) then
               forEach (assertFile_string (path @ ''.'' @ name) want)
                 (zip [0..<length (stringsOf fnode)] (stringsOf fnode)) acc
             else
               (case recur (path @ ''.'' @ name) vf a s of
                  Inl e \<Rightarrow> Inl e
                | Inr r \<Rightarrow> Inr (fst acc \<and> fst r, snd r))))"

definition assertFile_entry ::
  "(string \<Rightarrow> loc \<Rightarrow> bool \<Rightarrow> state \<Rightarrow> err + bool \<times> state) \<Rightarrow> nat \<Rightarrow> env \<Rightarrow> string \<Rightarrow>
     loc \<Rightarrow> loc \<Rightarrow> bool \<times> state \<Rightarrow> err + bool \<times> state" where
  "assertFile_entry recur fuel ev path l key acc =
     (case ifaceType fuel (heap (snd acc)) key of
        Inl e \<Rightarrow> Inl e
      | Inr kt \<Rightarrow>
          (case recur (''('' @ kt @ '')'') key False (snd acc) of
             Inl e \<Rightarrow> Inl e
           | Inr r1 \<Rightarrow>
               (let valPath = path @ ''['' @ formatValue ev (heap (snd r1)) key @ '']'' in
                case mapIndex (heap (snd r1)) l key of
                  Inl e \<Rightarrow> Inl e
                | Inr v \<Rightarrow>
                    (case recur valPath v False (snd r1) of
                       Inl e \<Rightarrow> Inl e
                     | Inr r2 \<Rightarrow> Inr (fst acc \<and> fst r1 \<and> fst r2, snd r2)))))"

definition assertFile_elem ::
  "(string \<Rightarrow> loc \<Rightarrow> bool \<Rightarrow> state \<Rightarrow> err + bool \<times> state) \<Rightarrow> string \<Rightarrow> loc \<Rightarrow> bool \<Rightarrow>
     nat \<Rightarrow> bool \<times> state \<Rightarrow> err + bool \<times> state" where
  "assertFile_elem recur path l a i acc =
     (case seqIndex (heap (snd acc)) l a i of
        Inl e \<Rightarrow> Inl e
      | Inr (el, ea) \<Rightarrow>
          (case recur (path @ ''['' @ showNat i @ '']'') el ea (snd acc) of
             Inl e \<Rightarrow> Inl e
           | Inr r \<Rightarrow> Inr (fst acc \<and> fst r, snd r)))"

fun assertFile ::
  "nat \<Rightarrow> env \<Rightarrow> string \<Rightarrow> fields \<Rightarrow> string \<Rightarrow> loc \<Rightarrow> bool \<Rightarrow> state \<Rightarrow> err + bool \<times> state" where
  "assertFile 0 ev want opts path l a s = Inl OutOfFuel"
| "assertFile (Suc n) ev want opts path l a s =
     (case heap s l of
        None \<Rightarrow> Inl BadStore
      | Some nd \<Rightarrow>
          if isNil nd then Inr (True, s)
          else
            (case nd of
               NPtr t p \<Rightarrow>
                 (case p of
                    None \<Rightarrow> Inr (True, s)
                  | Some q \<Rightarrow>
                      if (t, q) \<in> set (seen s) then Inr (True, s)
                      else assertFile n ev want opts path q True (s\<lparr>seen := (t, q) # seen s\<rparr>))
             | NStruct t fs pr \<Rightarrow>
                 forEach (assertFile_field (assertFile n ev want opts) path want opts t a) fs (True, s)
             | NMap t m \<Rightarrow>
                 forEach (assertFile_entry (assertFile n ev want opts) n ev path l) (mapKeys nd) (True, s)
             | NSlice t es \<Rightarrow>
                 forEach (assertFile_elem (assertFile n ev want opts) path l a) [0..<seqLen nd] (True, s)
             | NArray t es \<Rightarrow>
                 forEach (assertFile_elem (assertFile n ev want opts) path l a) [0..<seqLen nd] (True, s)
             | NIface t b \<Rightarrow>
                 (case b of
                    None \<Rightarrow> Inr (True, s)
                  | Some c \<Rightarrow>
                      (case ifaceType (Suc n) (heap s) l of
                         Inl e \<Rightarrow> Inl e
                       | Inr ct \<Rightarrow> assertFile n ev want opts (path @ ''.('' @ ct @ '')'') c False s))
             | _ \<Rightarrow> Inr (True, s)))"

text \<open>The result of \<open>AssertFile\<close> is what \<open>assertFile\<close> returned (on \<open>False\<close> the source
  calls \<^verbatim>\<open>t.FailNow()\<close>) and the state, whose \<open>reported\<close> holds the failures.\<close>

definition AssertFile ::
  "nat \<Rightarrow> env \<Rightarrow> loc option \<Rightarrow> string \<Rightarrow> FieldOption list \<Rightarrow> store \<Rightarrow> err + bool \<times> state" where
  "AssertFile n ev config path options h =
     (case config of
        None \<Rightarrow> Inl Panic
      | Some l \<Rightarrow>
          (case ifaceType n h l of
             Inl e \<Rightarrow> Inl e
           | Inr typ \<Rightarrow>
               assertFile n ev path (applyOptions options) (''('' @ typ @ '')'') l False (newState h)))"

section \<open>SetDirectory\<close>

text \<open>\<^verbatim>\<open>v.Interface()\<close>, where \<open>v\<close> is the address of the value when the value is not a
  pointer and can be addressed, and the value itself otherwise. On a value of kind
  Interface, \<^verbatim>\<open>Interface()\<close> gives what the interface holds.\<close>

definition receiver :: "store \<Rightarrow> loc \<Rightarrow> bool \<Rightarrow> node \<Rightarrow> err + recv" where
  "receiver h l a nd =
     (case nd of
        NPtr t p \<Rightarrow> Inr (RPtr t p)
      | NIface t b \<Rightarrow>
          if a then Inr (RPtr (CHR ''*'' # t) (Some l))
          else
            (case b of
               None \<Rightarrow> Inl Panic
             | Some c \<Rightarrow>
                 (case h c of
                    None \<Rightarrow> Inl BadStore
                  | Some (NPtr t' p) \<Rightarrow> Inr (RPtr t' p)
                  | Some nc \<Rightarrow> Inr (RVal (type_name nc) c)))
      | _ \<Rightarrow>
          if a then Inr (RPtr (CHR ''*'' # type_name nd) (Some l))
          else Inr (RVal (type_name nd) l))"

definition callSetDirectory :: "env \<Rightarrow> string \<Rightarrow> recv \<Rightarrow> state \<Rightarrow> state" where
  "callSetDirectory ev dir r s =
     (if implements ev (recv_type r)
      then s\<lparr>heap := applyDirectory ev r dir (heap s), calls := calls s @ [(r, dir)]\<rparr>
      else s)"

definition setDirectory_field ::
  "(loc \<Rightarrow> bool \<Rightarrow> state \<Rightarrow> err + state) \<Rightarrow> bool \<Rightarrow> string \<times> loc \<Rightarrow> state \<Rightarrow> err + state" where
  "setDirectory_field recur a tf s =
     (if \<not> (a \<and> exported (fst tf)) then Inr s else recur (snd tf) a s)"

text \<open>An element of a by-value string slice: it is addressable, so the capability is
  looked up on its address; a value of kind String has nothing to descend into.\<close>

definition setDirectory_string :: "env \<Rightarrow> string \<Rightarrow> loc \<Rightarrow> nat \<Rightarrow> state \<Rightarrow> err + state" where
  "setDirectory_string ev dir l i s =
     (case heap s l of
        None \<Rightarrow> Inl BadStore
      | Some (NStrings t e (Some xs)) \<Rightarrow>
          if i < length xs then Inr (callSetDirectory ev dir (RElem (CHR ''*'' # e) l i) s)
          else Inl Panic
      | Some _ \<Rightarrow> Inl Panic)"

fun setDirectory :: "nat \<Rightarrow> env \<Rightarrow> string \<Rightarrow> loc \<Rightarrow> bool \<Rightarrow> state \<Rightarrow> err + state" where
  "setDirectory 0 ev dir l a s = Inl OutOfFuel"
| "setDirectory (Suc n) ev dir l a s =
     (case heap s l of
        None \<Rightarrow> Inl BadStore
      | Some nd \<Rightarrow>
          if isNil nd then Inr s
          else
            (case receiver (heap s) l a nd of
               Inl e \<Rightarrow> Inl e
             | Inr r \<Rightarrow>
                 (let s1 = callSetDirectory ev dir r s in
                  case heap s1 l of
                    None \<Rightarrow> Inl BadStore
                  | Some nd1 \<Rightarrow>
                      (case nd1 of
                         NPtr t p \<Rightarrow>
                           (case p of
                              None \<Rightarrow> Inl Panic
                            | Some q \<Rightarrow>
                                if (t, q) \<in> set (seen s1) then Inr s1
                                else setDirectory n ev dir q True (s1\<lparr>seen := (t, q) # seen s1\<rparr>))
                       | NStruct t fs pr \<Rightarrow>
                           forEach (setDirectory_field (setDirectory n ev dir) a) fs s1
                       | NMap t m \<Rightarrow>
                           forEach (eachEntry (setDirectory n ev dir) l) (mapKeys nd1) s1
                       | NSlice t es \<Rightarrow>
                           forEach (eachElem (setDirectory n ev dir) l a) [0..<seqLen nd1] s1
                       | NArray t es \<Rightarrow>
                           forEach (eachElem (setDirectory n ev dir) l a) [0..<seqLen nd1] s1
                       | NStrings t e xs \<Rightarrow>
                           forEach (setDirectory_string ev dir l) [0..<length (stringsOf nd1)] s1
                       | NIface t b \<Rightarrow>
                           (case b of
                              None \<Rightarrow> Inl Panic
                            | Some c \<Rightarrow> setDirectory n ev dir c False s1)
                       | _ \<Rightarrow> Inr s1))))"

definition SetDirectory :: "nat \<Rightarrow> env \<Rightarrow> loc option \<Rightarrow> string \<Rightarrow> store \<Rightarrow> err + state" where
  "SetDirectory n ev config dir h =
     (case config of
        None \<Rightarrow> Inl Panic
      | Some l \<Rightarrow> setDirectory n ev dir l False (newState h))"


section \<open>Notions the properties are stated with\<close>

text \<open>The locations a node holds other than through a pointer.\<close>

fun children :: "node \<Rightarrow> loc set" where
  "children (NStruct _ fs _) = snd ` set fs"
| "children (NMap _ (Some kvs)) = fst ` set kvs \<union> snd ` set kvs"
| "children (NSlice _ (Some es)) = set es"
| "children (NArray _ es) = set es"
| "children (NIface _ (Some c)) = {c}"
| "children _ = {}"

text \<open>A store is ranked when holding, other than through a pointer, goes down a rank:
  every cycle of the graph then passes through a pointer.\<close>

definition ranked :: "(loc \<Rightarrow> nat) \<Rightarrow> store \<Rightarrow> bool" where
  "ranked rk h = (\<forall>l nd. h l = Some nd \<longrightarrow> (\<forall>c \<in> children nd. rk c < rk l))"

definition ptrKeys :: "store \<Rightarrow> (tname \<times> loc) set" where
  "ptrKeys h = {(t, q). \<exists>l. h l = Some (NPtr t (Some q))}"

text \<open>Two nodes of the same shape differ at most in the text of a string or in the
  strings of a by-value string slice; the type names are the same.\<close>

fun sameShape :: "node \<Rightarrow> node \<Rightarrow> bool" where
  "sameShape (NString t _) nd = (\<exists>x. nd = NString t x)"
| "sameShape (NStrings t _ _) nd = (\<exists>e xs. nd = NStrings t e xs)"
| "sameShape nd nd' = (nd = nd')"

definition shapeEq :: "store \<Rightarrow> store \<Rightarrow> bool" where
  "shapeEq h h' = (\<forall>l. rel_option sameShape (h l) (h' l))"

text \<open>\<open>seenExt s s'\<close>: the keys seen in \<open>s'\<close> are those of \<open>s\<close> and, before them, new
  keys, each of them once.\<close>

definition seenExt :: "state \<Rightarrow> state \<Rightarrow> bool" where
  "seenExt s s' = (\<exists>new. seen s' = new @ seen s \<and> distinct new \<and> set new \<inter> set (seen s) = {})"

definition setFile_post :: "state \<Rightarrow> state \<Rightarrow> bool" where
  "setFile_post s s' = (shapeEq (heap s) (heap s') \<and> seenExt s s'
      \<and> reported s' = reported s \<and> calls s' = calls s)"

text \<open>Nodes on which every walk returns at once: nil values and the kinds without
  parts.\<close>

fun inert :: "node \<Rightarrow> bool" where
  "inert (NPtr _ p) = (p = None)"
| "inert (NStruct _ _ _) = False"
| "inert (NMap _ m) = (m = None)"
| "inert (NSlice _ xs) = (xs = None)"
| "inert (NArray _ _) = False"
| "inert (NIface _ b) = (b = None)"
| "inert _ = True"

text \<open>\<open>accRel want acc acc'\<close>: what a stretch of an \<open>assertFile\<close> walk does to the pair of
  its \<open>ok\<close> flag and the state: the store stays, keys are added, failures are appended,
  each for a value that is not \<open>want\<close>, and the flag stays up exactly when it was up
  and nothing was appended.\<close>

definition accRel :: "string \<Rightarrow> bool \<times> state \<Rightarrow> bool \<times> state \<Rightarrow> bool" where
  "accRel want acc acc' =
     (heap (snd acc') = heap (snd acc) \<and> seenExt (snd acc) (snd acc')
      \<and> calls (snd acc') = calls (snd acc)
      \<and> (\<exists>new. reported (snd acc') = reported (snd acc) @ new
            \<and> (fst acc' = (fst acc \<and> new = []))
            \<and> (\<forall>f \<in> set new. snd (snd f) = want \<and> fst (snd f) \<noteq> want)))"

text \<open>The contract taken for the capability: a call of \<^verbatim>\<open>SetDirectory\<close> rewrites strings
  (it resolves file names against the directory) and nothing else.\<close>

definition capWritesStrings :: "env \<Rightarrow> bool" where
  "capWritesStrings ev = (\<forall>r d h. shapeEq h (applyDirectory ev r d h))"

text \<open>What a stretch of a \<open>setDirectory\<close> walk does: strings may change, keys are added,
  calls are appended, and every key added whose pointer type has the capability was
  called, as a pointer, in that stretch.\<close>

definition setDirectory_post :: "env \<Rightarrow> string \<Rightarrow> state \<Rightarrow> state \<Rightarrow> bool" where
  "setDirectory_post ev dir s s' =
     (shapeEq (heap s) (heap s') \<and> seenExt s s' \<and> reported s' = reported s
      \<and> (\<exists>new. calls s' = calls s @ new
            \<and> (\<forall>k \<in> set (seen s') - set (seen s).
                  implements ev (fst k) \<longrightarrow> (RPtr (fst k) (Some (snd k)), dir) \<in> set new)))"


text \<open>A computation indexed by its fuel halts when, from some fuel on, it gives one and
  the same result, and that result is not \<open>OutOfFuel\<close>.\<close>

definition halts :: "(nat \<Rightarrow> err + 'a) \<Rightarrow> bool" where
  "halts f = (\<exists>N r. r \<noteq> Inl OutOfFuel \<and> (\<forall>m\<ge>N. f m = r))"

text \<open>Where a walk goes from a value, in a store \<open>h\<close>: from a pointer to what it points to,
  from an addressable struct to its exported fields that the operation walks into
  (\<open>walked\<close> says which, given the struct type, the field name and what the field holds),
  from a map to its keys and values, from a slice or array to its elements, from an
  interface to what it holds. A value is a location and whether it is addressable.\<close>

inductive edge :: "(tname \<Rightarrow> string \<Rightarrow> node \<Rightarrow> bool) \<Rightarrow> store \<Rightarrow> loc \<times> bool \<Rightarrow> loc \<times> bool \<Rightarrow> bool"
  for walked :: "tname \<Rightarrow> string \<Rightarrow> node \<Rightarrow> bool" and h :: store where
  ptr: "h l = Some (NPtr t (Some q)) \<Longrightarrow> edge walked h (l, a) (q, True)"
| field: "h l = Some (NStruct t fs pr) \<Longrightarrow> (name, vf) \<in> set fs \<Longrightarrow> exported name \<Longrightarrow>
          h vf = Some fnode \<Longrightarrow> walked t name fnode \<Longrightarrow> edge walked h (l, True) (vf, True)"
| key: "h l = Some (NMap t (Some kvs)) \<Longrightarrow> (k, v) \<in> set kvs \<Longrightarrow> edge walked h (l, a) (k, False)"
| val: "h l = Some (NMap t (Some kvs)) \<Longrightarrow> map_of kvs k = Some v \<Longrightarrow> edge walked h (l, a) (v, False)"
| slice: "h l = Some (NSlice t (Some es)) \<Longrightarrow> i < length es \<Longrightarrow> edge walked h (l, a) (es ! i, True)"
| array: "h l = Some (NArray t es) \<Longrightarrow> i < length es \<Longrightarrow> edge walked h (l, a) (es ! i, a)"
| iface: "h l = Some (NIface t (Some c)) \<Longrightarrow> edge walked h (l, a) (c, False)"

text \<open>The fields \<open>setFile\<close> and \<open>assertFile\<close> walk into: those not excluded and not
  file-like; \<open>setDirectory\<close> walks into every exported field.\<close>

definition fileWalked :: "fields \<Rightarrow> tname \<Rightarrow> string \<Rightarrow> node \<Rightarrow> bool" where
  "fileWalked opts t name fnode =
     (\<not> excl opts (t, name)
      \<and> \<not> (is_stringTyp fnode \<and> (hasSuffix name ''File'' \<or> incl opts (t, name)))
      \<and> \<not> (is_stringSliceTyp fnode \<and> (hasSuffix name ''Files'' \<or> incl opts (t, name))))"

definition allWalked :: "tname \<Rightarrow> string \<Rightarrow> node \<Rightarrow> bool" where
  "allWalked t name fnode = True"

text \<open>\<open>inner\<close>: the steps that do not follow a pointer.\<close>

definition inner :: "(tname \<Rightarrow> string \<Rightarrow> node \<Rightarrow> bool) \<Rightarrow> store \<Rightarrow> loc \<times> bool \<Rightarrow> loc \<times> bool \<Rightarrow> bool" where
  "inner walked h x y = (edge walked h x y \<and> (\<forall>t p. h (fst x) \<noteq> Some (NPtr t p)))"

text \<open>What a walk owes to a value \<open>y\<close> of the store \<open>h\<close> it started from. \<open>ptrSeen\<close>: if \<open>y\<close>
  is a pointer that is not nil, its key has been seen. \<open>fileReported\<close>, for \<open>assertFile\<close>
  expecting \<open>want\<close>: if \<open>y\<close> is an addressable struct, then for each of its fields that can
  be set and is not excluded (\<open>fieldReported\<close>), a file-like string that is not \<open>want\<close> has
  a failure reported at a place that ends with the name of the field, and each string that
  is not \<open>want\<close> in a file-like slice of strings has one at a place that ends with the name
  of the field and the index. The other two operations report nothing: their \<open>want\<close> is
  \<open>None\<close>.\<close>

definition ptrSeen :: "store \<Rightarrow> state \<Rightarrow> loc \<times> bool \<Rightarrow> bool" where
  "ptrSeen h s y = (\<forall>t q. h (fst y) = Some (NPtr t (Some q)) \<longrightarrow> (t, q) \<in> set (seen s))"

definition fieldReported :: "fields \<Rightarrow> store \<Rightarrow> string \<Rightarrow> state \<Rightarrow> tname \<Rightarrow> string \<times> loc \<Rightarrow> bool" where
  "fieldReported opts h want s t tf =
     (\<forall>fnode. h (snd tf) = Some fnode \<longrightarrow>
        (is_stringTyp fnode \<and> (hasSuffix (fst tf) ''File'' \<or> incl opts (t, fst tf))
            \<and> stringOf fnode \<noteq> want \<longrightarrow>
           (\<exists>path. (path @ ''.'' @ fst tf, stringOf fnode, want) \<in> set (reported s)))
        \<and> (is_stringSliceTyp fnode \<and> (hasSuffix (fst tf) ''Files'' \<or> incl opts (t, fst tf)) \<longrightarrow>
           (\<forall>j < length (stringsOf fnode). stringsOf fnode ! j \<noteq> want \<longrightarrow>
              (\<exists>path. (path @ ''.'' @ fst tf @ ''['' @ showNat j @ '']'', stringsOf fnode ! j, want)
                  \<in> set (reported s)))))"

definition fileReported :: "fields \<Rightarrow> store \<Rightarrow> string \<Rightarrow> state \<Rightarrow> loc \<times> bool \<Rightarrow> bool" where
  "fileReported opts h want s y =
     (\<forall>t fs pr tf.
        snd y \<and> h (fst y) = Some (NStruct t fs pr) \<and> tf \<in> set fs \<and> exported (fst tf)
          \<and> \<not> excl opts (t, fst tf) \<longrightarrow>
        fieldReported opts h want s t tf)"

definition settled :: "fields \<Rightarrow> store \<Rightarrow> string option \<Rightarrow> state \<Rightarrow> loc \<times> bool \<Rightarrow> bool" where
  "settled opts h want s y =
     (ptrSeen h s y \<and> (case want of None \<Rightarrow> True | Some w \<Rightarrow> fileReported opts h w s y))"

text \<open>\<open>covered s x\<close>: the walk has settled every value that is met from \<open>x\<close> without
  following a pointer. \<open>grows s s'\<close>: \<open>s'\<close> has seen and reported what \<open>s\<close> has.
  \<open>covStep s s'\<close>: \<open>s'\<close> also covers what each key points to that it has seen and \<open>s\<close>
  has not.\<close>

definition covered ::
  "(tname \<Rightarrow> string \<Rightarrow> node \<Rightarrow> bool) \<Rightarrow> fields \<Rightarrow> store \<Rightarrow> string option \<Rightarrow> state \<Rightarrow> loc \<times> bool \<Rightarrow> bool" where
  "covered walked opts h want s x = (\<forall>y. (inner walked h)\<^sup>*\<^sup>* x y \<longrightarrow> settled opts h want s y)"

definition grows :: "state \<Rightarrow> state \<Rightarrow> bool" where
  "grows s s' = (set (seen s) \<subseteq> set (seen s') \<and> set (reported s) \<subseteq> set (reported s'))"

definition covStep ::
  "(tname \<Rightarrow> string \<Rightarrow> node \<Rightarrow> bool) \<Rightarrow> fields \<Rightarrow> store \<Rightarrow> string option \<Rightarrow> state \<Rightarrow> state \<Rightarrow> bool" where
  "covStep walked opts h want s s' =
     (grows s s' \<and> (\<forall>t q. (t, q) \<in> set (seen s') \<longrightarrow> (t, q) \<notin> set (seen s) \<longrightarrow>
                       covered walked opts h want s' (q, True)))"

text \<open>\<open>walkStep s s'\<close>: a stretch of a walk that started from the store \<open>h\<close>: the store
  keeps the shape of \<open>h\<close>, and \<open>covStep\<close>.\<close>

definition walkStep ::
  "(tname \<Rightarrow> string \<Rightarrow> node \<Rightarrow> bool) \<Rightarrow> fields \<Rightarrow> store \<Rightarrow> string option \<Rightarrow> state \<Rightarrow> state \<Rightarrow> bool" where
  "walkStep walked opts h want s s' =
     ((shapeEq h (heap s) \<longrightarrow> shapeEq h (heap s')) \<and> covStep walked opts h want s s')"

text \<open>\<open>assertStep acc acc'\<close>: a stretch of an \<open>assertFile\<close> walk, on the pair of its \<open>ok\<close>
  flag and the state.\<close>

definition assertStep ::
  "(tname \<Rightarrow> string \<Rightarrow> node \<Rightarrow> bool) \<Rightarrow> fields \<Rightarrow> store \<Rightarrow> string \<Rightarrow> bool \<times> state \<Rightarrow> bool \<times> state \<Rightarrow> bool" where
  "assertStep walked opts h w acc acc' =
     (accRel w acc acc' \<and> covStep walked opts h (Some w) (snd acc) (snd acc'))"


section \<open>Values of the package's tests\<close>

text \<open>A \<^verbatim>\<open>*fooSetter\<close> whose secret is set, as in \<^verbatim>\<open>Test_SetFile\<close>.\<close>

definition fooStore :: store where
  "fooStore = map_of [
     (0, NPtr ''*configtest.fooSetter'' (Some 1)),
     (1, NStruct ''configtest.fooSetter''
           [(''Foo'', 2), (''FooFile'', 3), (''Extra'', 4), (''Disable'', 5)] []),
     (2, NString ''config.Secret'' ''<secret>''),
     (3, NString ''string'' []),
     (4, NString ''string'' []),
     (5, NScalar ''bool'')]"

definition fooFields :: "(string \<times> loc option) list" where
  "fooFields = byName [(''Foo'', 2), (''FooFile'', 3), (''Extra'', 4), (''Disable'', 5)] []"

text \<open>A \<^verbatim>\<open>*barSetter\<close> with two files.\<close>

definition barStore :: store where
  "barStore = map_of [
     (0, NPtr ''*configtest.barSetter'' (Some 1)),
     (1, NStruct ''configtest.barSetter'' [(''BarFiles'', 2), (''Extra'', 3), (''Disable'', 4)] []),
     (2, NStrings ''[]string'' ''string'' (Some [''a'', ''b''])),
     (3, NString ''string'' []),
     (4, NScalar ''bool'')]"

definition excludeKey :: field where
  "excludeKey = (''configtest.excludeFile'', ''ExcludeFile'')"

text \<open>Modelled from the spec: \<^verbatim>\<open>config.JoinDir\<close>, which the test types call, is not under
  \<^verbatim>\<open>src/\<close>. An absolute path is returned unchanged; any other is joined to the directory
  with the path separator.\<close>

definition joinDir :: "string \<Rightarrow> string \<Rightarrow> string" where
  "joinDir dir path =
     (case path of
        [] \<Rightarrow> dir @ ''/'' @ path
      | c # _ \<Rightarrow> if c = CHR ''/'' then path else dir @ ''/'' @ path)"

text \<open>\<^verbatim>\<open>v.Name = config.JoinDir(dir, v.Name)\<close> on the struct at \<open>p\<close>.\<close>

definition joinField :: "store \<Rightarrow> loc \<Rightarrow> string \<Rightarrow> string \<Rightarrow> store" where
  "joinField h p name dir =
     (case h p of
        Some (NStruct t fs pr) \<Rightarrow>
          (case map_of fs name of
             Some f \<Rightarrow>
               (case h f of
                  Some (NString st x) \<Rightarrow> h(f \<mapsto> NString st (joinDir dir x))
                | _ \<Rightarrow> h)
           | None \<Rightarrow> h)
      | _ \<Rightarrow> h)"

text \<open>The capability as the test types \<^verbatim>\<open>fooSetter\<close> and \<^verbatim>\<open>cyclic\<close> have it (with
  \<^verbatim>\<open>Disable\<close> false); \<^verbatim>\<open>holder\<close>, a type with an unexported field, does nothing in
  its own method.\<close>

definition testApply :: "recv \<Rightarrow> string \<Rightarrow> store \<Rightarrow> store" where
  "testApply r dir h =
     (case r of
        RPtr t (Some p) \<Rightarrow>
          if t = ''*configtest.fooSetter'' then joinField h p ''FooFile'' dir
          else if t = ''*configtest.cyclic'' then joinField h p ''CyclicFile'' dir
          else h
      | _ \<Rightarrow> h)"

definition testEnv :: env where
  "testEnv = \<lparr>
     implements = (\<lambda>t. t \<in> set [''*configtest.fooSetter'', ''*configtest.cyclic'',
                                  ''*configtest.holder'', ''*configtest.root'',
                                  ''configtest.setterSlice'', ''*configtest.setterSlice'']),
     applyDirectory = testApply,
     formatValue = (\<lambda>h l. case h l of Some nd \<Rightarrow> stringOf nd | None \<Rightarrow> [])\<rparr>"

text \<open>The cyclic value of the tests: \<^verbatim>\<open>cycle.Self = cycle\<close>.\<close>

definition cycStore :: store where
  "cycStore = map_of [
     (0, NPtr ''*configtest.cyclic'' (Some 1)),
     (1, NStruct ''configtest.cyclic'' [(''Self'', 2), (''CyclicFile'', 3)] []),
     (2, NPtr ''*configtest.cyclic'' (Some 1)),
     (3, NString ''string'' ''hello/file'')]"

text \<open>A struct whose only field is unexported and points to a \<^verbatim>\<open>fooSetter\<close>.\<close>

definition holderStore :: store where
  "holderStore = map_of [
     (0, NPtr ''*configtest.holder'' (Some 1)),
     (1, NStruct ''configtest.holder'' [(''child'', 2)] []),
     (2, NPtr ''*configtest.fooSetter'' (Some 3)),
     (3, NStruct ''configtest.fooSetter'' [(''Foo'', 4), (''FooFile'', 5)] []),
     (4, NString ''config.Secret'' []),
     (5, NString ''string'' ''hello/file'')]"

text \<open>The case "multiple slice values" of \<^verbatim>\<open>Test_AssertFile\<close>: a root whose slice holds
  four \<^verbatim>\<open>fooSetter\<close>s, the second and the fourth with the relative path.\<close>

definition fooIn :: "loc \<Rightarrow> string \<Rightarrow> (loc \<times> node) list" where
  "fooIn b file = [
     (b, NIface ''config.DirectorySetter'' (Some (b + 1))),
     (b + 1, NPtr ''*configtest.fooSetter'' (Some (b + 2))),
     (b + 2, NStruct ''configtest.fooSetter''
               [(''Foo'', b + 3), (''FooFile'', b + 4), (''Extra'', b + 5), (''Disable'', b + 6)] []),
     (b + 3, NString ''config.Secret'' []),
     (b + 4, NString ''string'' file),
     (b + 5, NString ''string'' []),
     (b + 6, NScalar ''bool'')]"

definition sliceStore :: store where
  "sliceStore = map_of ([
     (0, NPtr ''*configtest.root'' (Some 1)),
     (1, NStruct ''configtest.root''
           [(''Child'', 2), (''Cyclic'', 3), (''Map'', 4), (''Slice'', 5), (''RootFile'', 6)] []),
     (2, NIface ''config.DirectorySetter'' None),
     (3, NPtr ''*configtest.cyclic'' None),
     (4, NMap ''configtest.setterMap'' None),
     (5, NSlice ''configtest.setterSlice'' (Some [10, 20, 30, 40])),
     (6, NString ''string'' ''/data/foo/bar/hello/file'')]
     @ fooIn 10 ''/data/foo/bar/hello/file'' @ fooIn 20 ''hello/file''
     @ fooIn 30 ''/data/foo/bar/hello/file'' @ fooIn 40 ''hello/file'')"

text \<open>A struct in a slice that holds the slice again: \<^verbatim>\<open>s[0].Self = &s[0]\<close> and
  \<^verbatim>\<open>s[0].Next = s\<close>, for \<^verbatim>\<open>type node struct { Self *node; Next []node }\<close>. The value has
  a cycle through a pointer and a cycle through the slice alone.\<close>

definition selfSlice :: store where
  "selfSlice = map_of [
     (0, NPtr ''*configtest.node'' (Some 1)),
     (1, NStruct ''configtest.node'' [(''Self'', 2), (''Next'', 3)] []),
     (2, NPtr ''*configtest.node'' (Some 1)),
     (3, NSlice ''[]configtest.node'' (Some [1]))]"



text \<open>The same root for any expected file \<open>w\<close>: the first and the third element of the
  slice hold \<open>w\<close>, the second holds \<open>v1\<close> and the fourth \<open>v3\<close>.\<close>

definition fourStore :: "string \<Rightarrow> string \<Rightarrow> string \<Rightarrow> store" where
  "fourStore w v1 v3 = map_of ([
     (0, NPtr ''*configtest.root'' (Some 1)),
     (1, NStruct ''configtest.root''
           [(''Child'', 2), (''Cyclic'', 3), (''Map'', 4), (''Slice'', 5), (''RootFile'', 6)] []),
     (2, NIface ''config.DirectorySetter'' None),
     (3, NPtr ''*configtest.cyclic'' None),
     (4, NMap ''configtest.setterMap'' None),
     (5, NSlice ''configtest.setterSlice'' (Some [10, 20, 30, 40])),
     (6, NString ''string'' w)]
     @ fooIn 10 w @ fooIn 20 v1 @ fooIn 30 w @ fooIn 40 v3)"

section \<open>Field options\<close>

lemma includeOpt_inj: "includeOpt k = includeOpt k' \<Longrightarrow> k = k'"
proof -
  assume "includeOpt k = includeOpt k'"
  then have "incl (includeOpt k noFields) k = incl (includeOpt k' noFields) k" by simp
  then show ?thesis by (simp add: includeOpt_def noFields_def split: if_splits)
qed

lemma excludeOpt_inj: "excludeOpt k = excludeOpt k' \<Longrightarrow> k = k'"
proof -
  assume "excludeOpt k = excludeOpt k'"
  then have "excl (excludeOpt k noFields) k = excl (excludeOpt k' noFields) k" by simp
  then show ?thesis by (simp add: excludeOpt_def noFields_def split: if_splits)
qed

lemma includeOpt_neq_excludeOpt: "includeOpt k \<noteq> excludeOpt k'"
proof
  assume "includeOpt k = excludeOpt k'"
  then have "incl (includeOpt k noFields) k = incl (excludeOpt k' noFields) k" by simp
  then show False by (simp add: includeOpt_def excludeOpt_def noFields_def)
qed

lemma fold_options:
  assumes "set os \<subseteq> range includeOpt \<union> range excludeOpt"
  shows "incl (fold (\<lambda>fn opts. fn opts) os f) k = (incl f k \<or> includeOpt k \<in> set os)
       \<and> excl (fold (\<lambda>fn opts. fn opts) os f) k = (excl f k \<or> excludeOpt k \<in> set os)
       \<and> fields.more (fold (\<lambda>fn opts. fn opts) os f) = fields.more f"
  using assms
proof (induction os arbitrary: f)
  case Nil
  then show ?case by simp
next
  case (Cons x os)
  from Cons.prems have x: "x \<in> range includeOpt \<union> range excludeOpt"
    and os: "set os \<subseteq> range includeOpt \<union> range excludeOpt" by auto
  from x consider k' where "x = includeOpt k'" | k' where "x = excludeOpt k'" by auto
  then show ?case
  proof cases
    case 1
    then show ?thesis
      using Cons.IH[OF os, of "x f"] includeOpt_inj[of k k'] includeOpt_neq_excludeOpt[of k' k]
      by (auto simp: includeOpt_def)
  next
    case 2
    then show ?thesis
      using Cons.IH[OF os, of "x f"] excludeOpt_inj[of k k'] includeOpt_neq_excludeOpt[of k k']
      by (auto simp: excludeOpt_def)
  qed
qed

lemma applyOptions_incl_excl:
  assumes "set os \<subseteq> range includeOpt \<union> range excludeOpt"
  shows "incl (applyOptions os) k = (includeOpt k \<in> set os)"
    and "excl (applyOptions os) k = (excludeOpt k \<in> set os)"
  using fold_options[OF assms, of noFields k] by (simp_all add: applyOptions_def noFields_def)

lemma applyOptions_set_eq:
  assumes "set os \<subseteq> range includeOpt \<union> range excludeOpt" and "set os' = set os"
  shows "applyOptions os' = applyOptions os"
proof (rule fields.equality)
  have os': "set os' \<subseteq> range includeOpt \<union> range excludeOpt" using assms by simp
  show "incl (applyOptions os') = incl (applyOptions os)"
    using applyOptions_incl_excl(1)[OF assms(1)] applyOptions_incl_excl(1)[OF os'] assms(2)
    by (intro ext) simp
  show "excl (applyOptions os') = excl (applyOptions os)"
    using applyOptions_incl_excl(2)[OF assms(1)] applyOptions_incl_excl(2)[OF os'] assms(2)
    by (intro ext) simp
  show "fields.more (applyOptions os') = fields.more (applyOptions os)" by simp
qed

lemma ptrType_funpow: "ptrType ((TPtr ^^ k) t) = ptrType t"
  by (induction k) simp_all

lemma rtype_layers: "\<exists>k base. ty = (TPtr ^^ k) base \<and> (\<forall>t. base \<noteq> TPtr t)"
proof (induction ty)
  case (TPtr ty)
  then obtain k base where "ty = (TPtr ^^ k) base" "\<forall>t. base \<noteq> TPtr t" by blast
  then have "TPtr ty = (TPtr ^^ Suc k) base \<and> (\<forall>t. base \<noteq> TPtr t)" by simp
  then show ?case by blast
next
  case (TStruct n fs)
  have "TStruct n fs = (TPtr ^^ 0) (TStruct n fs) \<and> (\<forall>t. TStruct n fs \<noteq> TPtr t)" by simp
  then show ?case by blast
next
  case (TOther n)
  have "TOther n = (TPtr ^^ 0) (TOther n) \<and> (\<forall>t. TOther n \<noteq> TPtr t)" by simp
  then show ?case by blast
qed

text \<open>
  Claim C9. Building an option fails at once, with a panic, when the type of the sample
  value, with every pointer indirection removed, is not a struct type, or when that
  struct type has no field of the given name; otherwise it succeeds, and the option it
  returns is the one for that struct type and field name. In full: the type of a sample
  is some number \<open>k\<close> of pointer indirections over a type that is not a pointer type.
  Over a struct type \<open>n\<close>, whatever \<open>k\<close> is, both constructors return the option for
  \<open>(n, name)\<close> when the struct type has a field \<open>name\<close> and panic with ``invalid field''
  when it has none; over any other type they panic with ``invalid struct''; on a nil
  sample they panic.
\<close>

theorem option_construction_fails_iff:
  "IncludeField (Some ((TPtr ^^ k) (TStruct n fs))) name
     = (if name \<in> set fs then Inr (includeOpt (n, name)) else Inl (InvalidField name n))
   \<and> ExcludeField (Some ((TPtr ^^ k) (TStruct n fs))) name
     = (if name \<in> set fs then Inr (excludeOpt (n, name)) else Inl (InvalidField name n))
   \<and> IncludeField (Some ((TPtr ^^ k) (TOther n))) name = Inl (InvalidStruct n)
   \<and> ExcludeField (Some ((TPtr ^^ k) (TOther n))) name = Inl (InvalidStruct n)
   \<and> IncludeField None name = Inl Panic
   \<and> ExcludeField None name = Inl Panic
   \<and> (\<exists>k' base. ty = (TPtr ^^ k') base \<and> (\<forall>t. base \<noteq> TPtr t))"
  using rtype_layers[of ty]
  by (simp add: IncludeField_def ExcludeField_def structField_def ptrType_funpow)

theorem option_construction_fails_iff_witness:
  "IncludeField (Some (TPtr (TStruct ''configtest.includeFile'' [''Extra'', ''Disable'']))) ''Extra''
     = Inr (includeOpt (''configtest.includeFile'', ''Extra''))
   \<and> ExcludeField (Some (TPtr (TStruct ''configtest.includeFile'' [''Extra'', ''Disable'']))) ''Extra''
     = Inr (excludeOpt (''configtest.includeFile'', ''Extra''))
   \<and> IncludeField (Some (TPtr (TStruct ''configtest.includeFile'' [''Extra'', ''Disable'']))) ''Nope''
     = Inl (InvalidField ''Nope'' ''configtest.includeFile'')
   \<and> IncludeField (Some (TPtr (TOther ''configtest.setterSlice''))) ''Nope''
     = Inl (InvalidStruct ''configtest.setterSlice'')"
  using option_construction_fails_iff[of "Suc 0" "''configtest.includeFile''" "[''Extra'', ''Disable'']" "''Extra''"]
    option_construction_fails_iff[of "Suc 0" "''configtest.includeFile''" "[''Extra'', ''Disable'']" "''Nope''"]
    option_construction_fails_iff[of "Suc 0" "''configtest.setterSlice''" "[]" "''Nope''"]
  by simp

text \<open>
  Claim C5. When the options hold both the inclusion and the exclusion of a field, the
  field counts as excluded: the loop bodies of \<open>setFile\<close> and \<open>assertFile\<close> pass over it
  without looking at it. Supplying the options in another order changes nothing: the
  fields they build are the same.
\<close>

theorem exclusion_wins_any_order:
  assumes "set os \<subseteq> range includeOpt \<union> range excludeOpt"
    and "includeOpt (typ, name) \<in> set os" and "excludeOpt (typ, name) \<in> set os"
    and "mset os' = mset os"
  shows "applyOptions os' = applyOptions os
       \<and> excl (applyOptions os') (typ, name)
       \<and> setFile_field recur file (applyOptions os') typ fs a (name, vf) s = Inr s
       \<and> assertFile_field recurA path want (applyOptions os') typ a (name, vf) acc = Inr acc"
proof -
  have se: "set os' = set os" using assms(4) by (rule mset_eq_setD)
  have eq: "applyOptions os' = applyOptions os" by (rule applyOptions_set_eq[OF assms(1) se])
  have ex: "excl (applyOptions os) (typ, name)"
    using applyOptions_incl_excl(2)[OF assms(1)] assms(3) by simp
  show ?thesis using eq ex by (simp add: setFile_field_def assertFile_field_def)
qed

theorem exclusion_wins_any_order_witness:
  "applyOptions [excludeOpt (''configtest.excludeFile'', ''ExcludeFile''),
                 includeOpt (''configtest.excludeFile'', ''ExcludeFile'')]
     = applyOptions [includeOpt (''configtest.excludeFile'', ''ExcludeFile''),
                     excludeOpt (''configtest.excludeFile'', ''ExcludeFile'')]
   \<and> excl (applyOptions [excludeOpt (''configtest.excludeFile'', ''ExcludeFile''),
                         includeOpt (''configtest.excludeFile'', ''ExcludeFile'')])
        (''configtest.excludeFile'', ''ExcludeFile'')
   \<and> setFile_field (\<lambda>l a s. Inl Panic) ''p''
        (applyOptions [excludeOpt (''configtest.excludeFile'', ''ExcludeFile''),
                       includeOpt (''configtest.excludeFile'', ''ExcludeFile'')])
        ''configtest.excludeFile'' [(''ExcludeFile'', Some 2)] True (''ExcludeFile'', 2)
        (newState Map.empty) = Inr (newState Map.empty)
   \<and> assertFile_field (\<lambda>p l a s. Inl Panic) ''(x)'' ''p''
        (applyOptions [excludeOpt (''configtest.excludeFile'', ''ExcludeFile''),
                       includeOpt (''configtest.excludeFile'', ''ExcludeFile'')])
        ''configtest.excludeFile'' True (''ExcludeFile'', 2) (True, newState Map.empty)
      = Inr (True, newState Map.empty)"
  by (rule exclusion_wins_any_order[of
      "[includeOpt (''configtest.excludeFile'', ''ExcludeFile''),
        excludeOpt (''configtest.excludeFile'', ''ExcludeFile'')]"])
    simp_all


section \<open>The loop over the fields of a struct\<close>

lemma exported_trimSuffix:
  "exported name \<Longrightarrow> trimSuffix name suf \<noteq> [] \<Longrightarrow> exported (trimSuffix name suf)"
  by (cases name; cases "length name - length suf")
    (auto simp: exported_def trimSuffix_def split: if_splits)

text \<open>The secret of a \<^verbatim>\<open>fooSetter\<close> is of the named type \<^verbatim>\<open>config.Secret\<close>, not of type
  \<^verbatim>\<open>string\<close>, and \<open>SetFile\<close> clears it all the same.\<close>

theorem setFile_clears_secret:
  "(case SetFile 3 (Some 0) ''hello/file'' [] fooStore of
      Inl e \<Rightarrow> False
    | Inr s \<Rightarrow> fooStore 2 = Some (NString ''config.Secret'' ''<secret>'') \<and>
               heap s 2 = Some (NString ''config.Secret'' []) \<and>
               heap s 3 = Some (NString ''string'' ''hello/file''))"
  by code_simp

text \<open>
  Claim C2, amended. For a field that can be set, is not excluded, is of type
  \<^verbatim>\<open>string\<close> and is named with the suffix \<^verbatim>\<open>File\<close> or included: \<open>SetFile\<close> clears the
  sibling named by the field's name without the suffix whenever the sibling is of kind
  String, whatever its type (\<^verbatim>\<open>string\<close> itself or a named string type such as the one
  for secrets), leaves a sibling of another kind alone, and then sets the field to the
  given string. The sibling is the field that \<^verbatim>\<open>FieldByName\<close> finds under that name, in \<open>fs\<close>:
  a field of the struct or one promoted from an embedded struct.
\<close>

theorem setFile_field_singular:
  assumes "a" and "exported name" and "\<not> excl opts (typ, name)"
    and "heap s vf = Some (NString stringTyp old)"
    and "hasSuffix name ''File'' \<or> incl opts (typ, name)"
    and "map_of fs (trimSuffix name ''File'') = Some (Some sf)"
    and "trimSuffix name ''File'' \<noteq> []"
    and "heap s sf = Some sib"
  shows "setFile_field recur file opts typ fs a (name, vf) s =
           Inr (s\<lparr>heap :=
                  (case sib of NString t x \<Rightarrow> (heap s)(sf \<mapsto> NString t []) | _ \<Rightarrow> heap s)
                  (vf \<mapsto> NString stringTyp file)\<rparr>)"
  using assms exported_trimSuffix[of name "''File''"]
  by (cases sib) (auto simp: setFile_field_def clearSibling_def Let_def)

theorem setFile_field_singular_witness:
  "setFile_field (\<lambda>l a s. Inr s) ''p'' noFields ''configtest.fooSetter'' fooFields True
      (''FooFile'', 3) (newState fooStore) =
    Inr ((newState fooStore)\<lparr>heap := (heap (newState fooStore))
          (2 \<mapsto> NString ''config.Secret'' [], 3 \<mapsto> NString stringTyp ''p'')\<rparr>)"
  using setFile_field_singular[of True "''FooFile''" noFields "''configtest.fooSetter''"
      "newState fooStore" 3 "[]" fooFields 2 "NString ''config.Secret'' ''<secret>''"
      "(\<lambda>l a s. Inr s)" "''p''"]
  by (simp add: exported_def isUpper_def noFields_def newState_def fooStore_def fooFields_def
      hasSuffix_def trimSuffix_def stringTyp_def byName_def)

text \<open>
  Claim C7. For a field that can be set, is not excluded, is of type \<^verbatim>\<open>[]string\<close> and is
  named with the suffix \<^verbatim>\<open>Files\<close> or included, \<open>SetFile\<close> replaces the whole slice, whatever
  it held, by the slice of the one given string.
\<close>

theorem setFile_field_plural:
  assumes "a" and "exported name" and "\<not> excl opts (typ, name)"
    and "heap s vf = Some (NStrings stringSliceTyp e old)"
    and "hasSuffix name ''Files'' \<or> incl opts (typ, name)"
  shows "setFile_field recur file opts typ fs a (name, vf) s =
           Inr (s\<lparr>heap := (heap s)(vf \<mapsto> NStrings stringSliceTyp stringTyp (Some [file]))\<rparr>)"
  using assms by (simp add: setFile_field_def Let_def)

theorem setFile_field_plural_witness:
  "setFile_field (\<lambda>l a s. Inr s) ''p'' noFields ''configtest.barSetter''
      [(''BarFiles'', Some 2), (''Extra'', Some 3), (''Disable'', Some 4)] True (''BarFiles'', 2) (newState barStore) =
    Inr ((newState barStore)\<lparr>heap := (heap (newState barStore))
          (2 \<mapsto> NStrings stringSliceTyp stringTyp (Some [''p'']))\<rparr>)
   \<and> (case SetFile 3 (Some 0) ''p'' [] barStore of
        Inl e \<Rightarrow> False
      | Inr s \<Rightarrow> heap s 2 = Some (NStrings ''[]string'' ''string'' (Some [''p''])))"
proof
  show "setFile_field (\<lambda>l a s. Inr s) ''p'' noFields ''configtest.barSetter''
      [(''BarFiles'', Some 2), (''Extra'', Some 3), (''Disable'', Some 4)] True (''BarFiles'', 2) (newState barStore) =
    Inr ((newState barStore)\<lparr>heap := (heap (newState barStore))
          (2 \<mapsto> NStrings stringSliceTyp stringTyp (Some [''p'']))\<rparr>)"
    by (rule setFile_field_plural[where e = "''string''" and old = "Some [''a'', ''b'']"])
      (simp_all add: exported_def isUpper_def noFields_def newState_def barStore_def
        hasSuffix_def stringSliceTyp_def)
  show "(case SetFile 3 (Some 0) ''p'' [] barStore of
        Inl e \<Rightarrow> False
      | Inr s \<Rightarrow> heap s 2 = Some (NStrings ''[]string'' ''string'' (Some [''p''])))"
    by code_simp
qed


section \<open>Shapes, seen keys and loops\<close>

lemma sameShape_refl [simp]: "sameShape x x"
  by (cases x) auto

lemma sameShape_trans: "sameShape x y \<Longrightarrow> sameShape y z \<Longrightarrow> sameShape x z"
  by (cases x) auto

lemma sameShape_sym: "sameShape x y \<Longrightarrow> sameShape y x"
  by (cases x) auto

lemma shapeEq_refl [simp]: "shapeEq h h"
  by (simp add: shapeEq_def option.rel_refl)

lemma shapeEq_trans: "shapeEq h h' \<Longrightarrow> shapeEq h' h'' \<Longrightarrow> shapeEq h h''"
  unfolding shapeEq_def
proof
  fix l assume a: "\<forall>l. rel_option sameShape (h l) (h' l)" and b: "\<forall>l. rel_option sameShape (h' l) (h'' l)"
  from a b have "rel_option sameShape (h l) (h' l)" "rel_option sameShape (h' l) (h'' l)" by auto
  then show "rel_option sameShape (h l) (h'' l)"
    by (cases "h l"; cases "h' l"; cases "h'' l") (auto intro: sameShape_trans)
qed

lemma shapeEq_sym: "shapeEq h h' \<Longrightarrow> shapeEq h' h"
  unfolding shapeEq_def
proof
  fix l assume a: "\<forall>l. rel_option sameShape (h l) (h' l)"
  then have "rel_option sameShape (h l) (h' l)" by auto
  then show "rel_option sameShape (h' l) (h l)"
    by (cases "h l"; cases "h' l") (auto intro: sameShape_sym)
qed

lemma shapeEq_upd:
  "h l = Some nd \<Longrightarrow> sameShape nd nd' \<Longrightarrow> shapeEq h (h(l \<mapsto> nd'))"
  by (simp add: shapeEq_def option.rel_refl)

lemma seenExt_refl [simp]: "seenExt s s"
  by (simp add: seenExt_def)

lemma seenExt_same: "seen s' = seen s \<Longrightarrow> seenExt s s'"
  by (simp add: seenExt_def)

lemma seenExt_trans: "seenExt s s' \<Longrightarrow> seenExt s' s'' \<Longrightarrow> seenExt s s''"
  unfolding seenExt_def
proof -
  assume "\<exists>new. seen s' = new @ seen s \<and> distinct new \<and> set new \<inter> set (seen s) = {}"
    and "\<exists>new. seen s'' = new @ seen s' \<and> distinct new \<and> set new \<inter> set (seen s') = {}"
  then obtain n1 n2 where 1: "seen s' = n1 @ seen s" "distinct n1" "set n1 \<inter> set (seen s) = {}"
    and 2: "seen s'' = n2 @ seen s'" "distinct n2" "set n2 \<inter> set (seen s') = {}" by blast
  have "seen s'' = (n2 @ n1) @ seen s" using 1 2 by simp
  moreover have "distinct (n2 @ n1)" using 1 2 by auto
  moreover have "set (n2 @ n1) \<inter> set (seen s) = {}" using 1 2 by auto
  ultimately show "\<exists>new. seen s'' = new @ seen s \<and> distinct new \<and> set new \<inter> set (seen s) = {}"
    by blast
qed

lemma seenExt_push:
  "k \<notin> set (seen s) \<Longrightarrow> seenExt s (s\<lparr>seen := k # seen s\<rparr>)"
  unfolding seenExt_def by (rule exI[of _ "[k]"]) simp

lemma setFile_post_refl [simp]: "setFile_post s s"
  by (simp add: setFile_post_def)

lemma setFile_post_trans: "setFile_post s s' \<Longrightarrow> setFile_post s' s'' \<Longrightarrow> setFile_post s s''"
  unfolding setFile_post_def by (auto intro: shapeEq_trans seenExt_trans)

lemma forEach_rel:
  assumes refl: "\<And>s. R s s" and trans: "\<And>s s' s''. R s s' \<Longrightarrow> R s' s'' \<Longrightarrow> R s s''"
    and body: "\<And>x s s'. x \<in> set xs \<Longrightarrow> body x s = Inr s' \<Longrightarrow> R s s'"
    and run: "forEach body xs s = Inr s'"
  shows "R s s'"
  using body run
proof (induction xs arbitrary: s)
  case Nil
  then show ?case using refl by simp
next
  case (Cons x xs)
  from Cons.prems(2) obtain s1 where 1: "body x s = Inr s1" and 2: "forEach body xs s1 = Inr s'"
    by (auto split: sum.splits)
  have "R s s1" using Cons.prems(1)[of x s s1] 1 by simp
  moreover have "R s1 s'" by (rule Cons.IH[OF _ 2], rule Cons.prems(1)) auto
  ultimately show ?case using trans by blast
qed

lemma eachEntry_rel:
  assumes "\<And>s s' s''. R s s' \<Longrightarrow> R s' s'' \<Longrightarrow> R s s''"
    and "\<And>l a s s'. recur l a s = Inr s' \<Longrightarrow> R s s'"
    and "eachEntry recur l key s = Inr s'"
  shows "R s s'"
  using assms(3) assms(1) assms(2)
  by (fastforce simp: eachEntry_def split: sum.splits)

lemma eachElem_rel:
  assumes "\<And>l a s s'. recur l a s = Inr s' \<Longrightarrow> R s s'"
    and "eachElem recur l a i s = Inr s'"
  shows "R s s'"
  using assms(2) assms(1)
  by (auto simp: eachElem_def split: sum.splits prod.splits)


lemma node_walk_cases:
  obtains (inert) "inert nd"
  | (ptr) t q where "nd = NPtr t (Some q)"
  | (struct) t fs pr where "nd = NStruct t fs pr"
  | (map) t kvs where "nd = NMap t (Some kvs)"
  | (slice) t es where "nd = NSlice t (Some es)"
  | (array) t es where "nd = NArray t es"
  | (iface) t c where "nd = NIface t (Some c)"
  by (cases nd) auto


section \<open>What one call of \<open>setFile\<close> changes\<close>

lemma setFile_0: "setFile 0 file opts l a s = Inl OutOfFuel"
  by simp

lemma setFile_none: "heap s l = None \<Longrightarrow> setFile (Suc n) file opts l a s = Inl BadStore"
  by simp

lemma setFile_inert:
  "heap s l = Some nd \<Longrightarrow> inert nd \<Longrightarrow> setFile (Suc n) file opts l a s = Inr s"
  by (cases nd) auto

lemma setFile_ptr:
  "heap s l = Some (NPtr t (Some q)) \<Longrightarrow>
   setFile (Suc n) file opts l a s =
     (if (t, q) \<in> set (seen s) then Inr s
      else setFile n file opts q True (s\<lparr>seen := (t, q) # seen s\<rparr>))"
  by simp

lemma setFile_struct:
  "heap s l = Some (NStruct t fs pr) \<Longrightarrow>
   setFile (Suc n) file opts l a s =
     forEach (setFile_field (setFile n file opts) file opts t (byName fs pr) a) fs s"
  by simp

lemma setFile_map:
  "heap s l = Some (NMap t (Some kvs)) \<Longrightarrow>
   setFile (Suc n) file opts l a s =
     forEach (eachEntry (setFile n file opts) l) (map fst kvs) s"
  by (simp add: mapKeys_def)

lemma setFile_slice:
  "heap s l = Some (NSlice t (Some es)) \<Longrightarrow>
   setFile (Suc n) file opts l a s =
     forEach (eachElem (setFile n file opts) l a) [0..<length es] s"
  by (simp add: seqLen_def)

lemma setFile_array:
  "heap s l = Some (NArray t es) \<Longrightarrow>
   setFile (Suc n) file opts l a s =
     forEach (eachElem (setFile n file opts) l a) [0..<length es] s"
  by (simp add: seqLen_def)

lemma setFile_iface:
  "heap s l = Some (NIface t (Some c)) \<Longrightarrow>
   setFile (Suc n) file opts l a s = setFile n file opts c False s"
  by simp

declare setFile.simps [simp del]

lemma clearSibling_post:
  "clearSibling fs name s = Inr s' \<Longrightarrow> setFile_post s s'"
  by (auto simp: clearSibling_def setFile_post_def seenExt_def intro!: shapeEq_upd
      split: option.splits node.splits if_splits)

lemma setFile_field_post:
  assumes "\<And>l a s s'. recur l a s = Inr s' \<Longrightarrow> setFile_post s s'"
    and "setFile_field recur file opts typ fs a tf s = Inr s'"
  shows "setFile_post s s'"
proof -
  obtain name vf where tf: "tf = (name, vf)" by (cases tf)
  show ?thesis
  proof (cases "\<not> (a \<and> exported name) \<or> excl opts (typ, name)")
    case True
    then show ?thesis using assms(2) tf by (simp add: setFile_field_def)
  next
    case False
    then obtain fnode where fn: "heap s vf = Some fnode"
      using assms(2) tf by (auto simp: setFile_field_def Let_def split: option.splits)
    consider (single) "is_stringTyp fnode \<and> (hasSuffix name ''File'' \<or> incl opts (typ, name))"
      | (plural) "\<not> (is_stringTyp fnode \<and> (hasSuffix name ''File'' \<or> incl opts (typ, name)))"
          "is_stringSliceTyp fnode \<and> (hasSuffix name ''Files'' \<or> incl opts (typ, name))"
      | (other) "\<not> (is_stringTyp fnode \<and> (hasSuffix name ''File'' \<or> incl opts (typ, name)))"
          "\<not> (is_stringSliceTyp fnode \<and> (hasSuffix name ''Files'' \<or> incl opts (typ, name)))"
      by blast
    then show ?thesis
    proof cases
      case single
      then obtain s1 where c: "clearSibling fs (trimSuffix name ''File'') s = Inr s1"
        and s': "s' = s1\<lparr>heap := (heap s1)(vf \<mapsto> NString stringTyp file)\<rparr>"
        using assms(2) tf False fn by (auto simp: setFile_field_def split: sum.splits)
      have p1: "setFile_post s s1" by (rule clearSibling_post[OF c])
      from single obtain x where "fnode = NString stringTyp x" by (cases fnode) auto
      with fn p1 have "\<exists>y. heap s1 vf = Some (NString stringTyp y)"
        by (auto simp: setFile_post_def shapeEq_def dest!: spec[of _ vf] elim!: option.rel_cases)
      then have "setFile_post s1 s'" unfolding s'
        by (auto simp: setFile_post_def seenExt_def intro!: shapeEq_upd)
      with p1 show ?thesis by (rule setFile_post_trans)
    next
      case plural
      then have s': "s' = s\<lparr>heap := (heap s)(vf \<mapsto> NStrings stringSliceTyp stringTyp (Some [file]))\<rparr>"
        using assms(2) tf False fn by (auto simp: setFile_field_def)
      from plural obtain e xs where "fnode = NStrings stringSliceTyp e xs" by (cases fnode) auto
      with fn show ?thesis unfolding s'
        by (auto simp: setFile_post_def seenExt_def intro!: shapeEq_upd)
    next
      case other
      then have "recur vf a s = Inr s'"
        using assms(2) tf False fn by (auto simp: setFile_field_def)
      then show ?thesis by (rule assms(1))
    qed
  qed
qed

lemma setFile_post:
  "setFile n file opts l a s = Inr s' \<Longrightarrow> setFile_post s s'"
proof (induction n arbitrary: l a s s')
  case 0
  then show ?case by (simp add: setFile_0)
next
  case (Suc n)
  note IH = Suc.IH
  from Suc.prems obtain nd where nd: "heap s l = Some nd"
    by (cases "heap s l") (auto simp: setFile_none)
  show ?case
  proof (cases nd rule: node_walk_cases)
    case inert
    then show ?thesis using Suc.prems setFile_inert[OF nd] by simp
  next
    case (ptr t q)
    show ?thesis
    proof (cases "(t, q) \<in> set (seen s)")
      case True
      then show ?thesis using Suc.prems nd ptr by (simp add: setFile_ptr)
    next
      case nin: False
      then have "setFile n file opts q True (s\<lparr>seen := (t, q) # seen s\<rparr>) = Inr s'"
        using Suc.prems nd ptr by (simp add: setFile_ptr)
      then have "setFile_post (s\<lparr>seen := (t, q) # seen s\<rparr>) s'" by (rule IH)
      moreover have "setFile_post s (s\<lparr>seen := (t, q) # seen s\<rparr>)"
        using nin by (simp add: setFile_post_def seenExt_push)
      ultimately show ?thesis using setFile_post_trans by blast
    qed
  next
    case (struct t fs pr)
    then have "forEach (setFile_field (setFile n file opts) file opts t (byName fs pr) a) fs s = Inr s'"
      using Suc.prems nd by (simp add: setFile_struct)
    then show ?thesis
      by (rule forEach_rel[rotated 3]) (auto intro: setFile_post_trans setFile_field_post IH)
  next
    case (map t kvs)
    then have "forEach (eachEntry (setFile n file opts) l) (map fst kvs) s = Inr s'"
      using Suc.prems nd by (simp add: setFile_map)
    then show ?thesis
      by (rule forEach_rel[rotated 3])
        (auto intro: setFile_post_trans eachEntry_rel[where R = setFile_post] IH)
  next
    case (slice t es)
    then have "forEach (eachElem (setFile n file opts) l a) [0..<length es] s = Inr s'"
      using Suc.prems nd by (simp add: setFile_slice)
    then show ?thesis
      by (rule forEach_rel[rotated 3])
        (auto intro: setFile_post_trans eachElem_rel[where R = setFile_post] IH)
  next
    case (array t es)
    then have "forEach (eachElem (setFile n file opts) l a) [0..<length es] s = Inr s'"
      using Suc.prems nd by (simp add: setFile_array)
    then show ?thesis
      by (rule forEach_rel[rotated 3])
        (auto intro: setFile_post_trans eachElem_rel[where R = setFile_post] IH)
  next
    case (iface t c)
    then have "setFile n file opts c False s = Inr s'"
      using Suc.prems nd by (simp add: setFile_iface)
    then show ?thesis by (rule IH)
  qed
qed

lemma setFile_field_post':
  "setFile_field (setFile n file opts) file' opts' typ fs a tf s = Inr s' \<Longrightarrow> setFile_post s s'"
  by (erule setFile_field_post[rotated]) (rule setFile_post)

lemma setFile_entry_post:
  "eachEntry (setFile n file opts) l key s = Inr s' \<Longrightarrow> setFile_post s s'"
  by (erule eachEntry_rel[where R = setFile_post, rotated 2])
    (auto intro: setFile_post_trans setFile_post)

lemma setFile_elem_post:
  "eachElem (setFile n file opts) l a i s = Inr s' \<Longrightarrow> setFile_post s s'"
  by (erule eachElem_rel[where R = setFile_post, rotated]) (rule setFile_post)


section \<open>What one call of \<open>assertFile\<close> changes\<close>

lemma assertFile_0: "assertFile 0 ev want opts path l a s = Inl OutOfFuel"
  by simp

lemma assertFile_none:
  "heap s l = None \<Longrightarrow> assertFile (Suc n) ev want opts path l a s = Inl BadStore"
  by simp

lemma assertFile_inert:
  "heap s l = Some nd \<Longrightarrow> inert nd \<Longrightarrow> assertFile (Suc n) ev want opts path l a s = Inr (True, s)"
  by (cases nd) auto

lemma assertFile_ptr:
  "heap s l = Some (NPtr t (Some q)) \<Longrightarrow>
   assertFile (Suc n) ev want opts path l a s =
     (if (t, q) \<in> set (seen s) then Inr (True, s)
      else assertFile n ev want opts path q True (s\<lparr>seen := (t, q) # seen s\<rparr>))"
  by simp

lemma assertFile_struct:
  "heap s l = Some (NStruct t fs pr) \<Longrightarrow>
   assertFile (Suc n) ev want opts path l a s =
     forEach (assertFile_field (assertFile n ev want opts) path want opts t a) fs (True, s)"
  by simp

lemma assertFile_map:
  "heap s l = Some (NMap t (Some kvs)) \<Longrightarrow>
   assertFile (Suc n) ev want opts path l a s =
     forEach (assertFile_entry (assertFile n ev want opts) n ev path l) (map fst kvs) (True, s)"
  by (simp add: mapKeys_def)

lemma assertFile_slice:
  "heap s l = Some (NSlice t (Some es)) \<Longrightarrow>
   assertFile (Suc n) ev want opts path l a s =
     forEach (assertFile_elem (assertFile n ev want opts) path l a) [0..<length es] (True, s)"
  by (simp add: seqLen_def)

lemma assertFile_array:
  "heap s l = Some (NArray t es) \<Longrightarrow>
   assertFile (Suc n) ev want opts path l a s =
     forEach (assertFile_elem (assertFile n ev want opts) path l a) [0..<length es] (True, s)"
  by (simp add: seqLen_def)

lemma assertFile_iface:
  "heap s l = Some (NIface t (Some c)) \<Longrightarrow>
   assertFile (Suc n) ev want opts path l a s =
     (case ifaceType (Suc n) (heap s) l of
        Inl e \<Rightarrow> Inl e
      | Inr ct \<Rightarrow> assertFile n ev want opts (path @ ''.('' @ ct @ '')'') c False s)"
  by simp

declare assertFile.simps [simp del]

lemma accRel_refl [simp]: "accRel want acc acc"
  by (simp add: accRel_def)

lemma accRel_trans: "accRel want x y \<Longrightarrow> accRel want y z \<Longrightarrow> accRel want x z"
  unfolding accRel_def
proof (elim conjE exE, intro conjI)
  fix n1 n2
  assume r1: "reported (snd y) = reported (snd x) @ n1" and r2: "reported (snd z) = reported (snd y) @ n2"
    and o1: "fst y = (fst x \<and> n1 = [])" and o2: "fst z = (fst y \<and> n2 = [])"
    and w1: "\<forall>f\<in>set n1. snd (snd f) = want \<and> fst (snd f) \<noteq> want"
    and w2: "\<forall>f\<in>set n2. snd (snd f) = want \<and> fst (snd f) \<noteq> want"
  show "\<exists>new. reported (snd z) = reported (snd x) @ new \<and> fst z = (fst x \<and> new = [])
      \<and> (\<forall>f\<in>set new. snd (snd f) = want \<and> fst (snd f) \<noteq> want)"
    by (rule exI[of _ "n1 @ n2"]) (use r1 r2 o1 o2 w1 w2 in auto)
qed (auto intro: seenExt_trans)

lemma accRel_errorf:
  "got \<noteq> want \<Longrightarrow> accRel want acc (False, errorf (place, got, want) (snd acc))"
  unfolding accRel_def errorf_def by (auto simp: seenExt_same)

lemma accRel_join:
  assumes "accRel want (True, s) r"
  shows "accRel want (ok, s) (ok \<and> fst r, snd r)"
  using assms unfolding accRel_def by auto

lemma assertFile_string_rel:
  "assertFile_string place want jx acc = Inr acc' \<Longrightarrow> accRel want acc acc'"
  by (auto simp: assertFile_string_def Let_def accRel_errorf split: if_splits)

lemma assertFile_field_rel:
  assumes "\<And>path l a s r. recur path l a s = Inr r \<Longrightarrow> accRel want (True, s) r"
    and "assertFile_field recur path want opts typ a tf acc = Inr acc'"
  shows "accRel want acc acc'"
proof -
  obtain name vf where tf: "tf = (name, vf)" by (cases tf)
  show ?thesis
  proof (cases "\<not> (a \<and> exported name) \<or> excl opts (typ, name)")
    case True
    then show ?thesis using assms(2) tf by (simp add: assertFile_field_def)
  next
    case False
    then obtain fnode where fn: "heap (snd acc) vf = Some fnode"
      using assms(2) tf by (auto simp: assertFile_field_def Let_def split: option.splits)
    consider (single) "is_stringTyp fnode \<and> (hasSuffix name ''File'' \<or> incl opts (typ, name))"
      | (plural) "\<not> (is_stringTyp fnode \<and> (hasSuffix name ''File'' \<or> incl opts (typ, name)))"
          "is_stringSliceTyp fnode \<and> (hasSuffix name ''Files'' \<or> incl opts (typ, name))"
      | (other) "\<not> (is_stringTyp fnode \<and> (hasSuffix name ''File'' \<or> incl opts (typ, name)))"
          "\<not> (is_stringSliceTyp fnode \<and> (hasSuffix name ''Files'' \<or> incl opts (typ, name)))"
      by blast
    then show ?thesis
    proof cases
      case single
      then show ?thesis
        using assms(2) tf False fn
        by (auto simp: assertFile_field_def Let_def accRel_errorf split: if_splits)
    next
      case plural
      then have "forEach (assertFile_string (path @ ''.'' @ name) want)
                 (zip [0..<length (stringsOf fnode)] (stringsOf fnode)) acc = Inr acc'"
        using assms(2) tf False fn by (auto simp: assertFile_field_def Let_def)
      then show ?thesis
        by (rule forEach_rel[rotated 3]) (auto intro: accRel_trans assertFile_string_rel)
    next
      case other
      then obtain r where r: "recur (path @ ''.'' @ name) vf a (snd acc) = Inr r"
        and acc': "acc' = (fst acc \<and> fst r, snd r)"
        using assms(2) tf False fn
        by (auto simp: assertFile_field_def Let_def split: sum.splits)
      show ?thesis unfolding acc' using accRel_join[OF assms(1)[OF r], of "fst acc"] by simp
    qed
  qed
qed

lemma assertFile_entry_rel:
  assumes "\<And>path l a s r. recur path l a s = Inr r \<Longrightarrow> accRel want (True, s) r"
    and "assertFile_entry recur fuel ev path l key acc = Inr acc'"
  shows "accRel want acc acc'"
proof -
  from assms(2) obtain kt r1 v r2 where
    r1: "recur (''('' @ kt @ '')'') key False (snd acc) = Inr r1"
    and r2: "recur (path @ ''['' @ formatValue ev (heap (snd r1)) key @ '']'') v False (snd r1) = Inr r2"
    and acc': "acc' = (fst acc \<and> fst r1 \<and> fst r2, snd r2)"
    by (auto simp: assertFile_entry_def Let_def split: sum.splits)
  have a1: "accRel want acc (fst acc \<and> fst r1, snd r1)"
    using accRel_join[OF assms(1)[OF r1], of "fst acc"] by simp
  have a2: "accRel want (fst acc \<and> fst r1, snd r1) ((fst acc \<and> fst r1) \<and> fst r2, snd r2)"
    by (rule accRel_join[OF assms(1)[OF r2]])
  show ?thesis unfolding acc' using accRel_trans[OF a1 a2] by (simp add: conj_assoc)
qed

lemma assertFile_elem_rel:
  assumes "\<And>path l a s r. recur path l a s = Inr r \<Longrightarrow> accRel want (True, s) r"
    and "assertFile_elem recur path l a i acc = Inr acc'"
  shows "accRel want acc acc'"
proof -
  from assms(2) obtain el ea r where
    r: "recur (path @ ''['' @ showNat i @ '']'') el ea (snd acc) = Inr r"
    and acc': "acc' = (fst acc \<and> fst r, snd r)"
    by (auto simp: assertFile_elem_def split: sum.splits prod.splits)
  show ?thesis unfolding acc' using accRel_join[OF assms(1)[OF r], of "fst acc"] by simp
qed

lemma accRel_push:
  "k \<notin> set (seen s) \<Longrightarrow> accRel want (True, s) (True, s\<lparr>seen := k # seen s\<rparr>)"
  by (simp add: accRel_def seenExt_push)

lemma assertFile_rel:
  "assertFile n ev want opts path l a s = Inr r \<Longrightarrow> accRel want (True, s) r"
proof (induction n arbitrary: path l a s r)
  case 0
  then show ?case by (simp add: assertFile_0)
next
  case (Suc n)
  note IH = Suc.IH
  from Suc.prems obtain nd where nd: "heap s l = Some nd"
    by (cases "heap s l") (auto simp: assertFile_none)
  show ?case
  proof (cases nd rule: node_walk_cases)
    case inert
    then show ?thesis using Suc.prems assertFile_inert[OF nd] by simp
  next
    case (ptr t q)
    show ?thesis
    proof (cases "(t, q) \<in> set (seen s)")
      case True
      then show ?thesis using Suc.prems nd ptr by (simp add: assertFile_ptr)
    next
      case nin: False
      then have "assertFile n ev want opts path q True (s\<lparr>seen := (t, q) # seen s\<rparr>) = Inr r"
        using Suc.prems nd ptr by (simp add: assertFile_ptr)
      then have "accRel want (True, s\<lparr>seen := (t, q) # seen s\<rparr>) r" by (rule IH)
      with accRel_push[OF nin] show ?thesis by (rule accRel_trans)
    qed
  next
    case (struct t fs pr)
    then have "forEach (assertFile_field (assertFile n ev want opts) path want opts t a) fs (True, s) = Inr r"
      using Suc.prems nd by (simp add: assertFile_struct)
    then show ?thesis
      by (rule forEach_rel[rotated 3]) (auto intro: accRel_trans assertFile_field_rel IH)
  next
    case (map t kvs)
    then have "forEach (assertFile_entry (assertFile n ev want opts) n ev path l) (map fst kvs) (True, s) = Inr r"
      using Suc.prems nd by (simp add: assertFile_map)
    then show ?thesis
      by (rule forEach_rel[rotated 3]) (auto intro: accRel_trans assertFile_entry_rel IH)
  next
    case (slice t es)
    then have "forEach (assertFile_elem (assertFile n ev want opts) path l a) [0..<length es] (True, s) = Inr r"
      using Suc.prems nd by (simp add: assertFile_slice)
    then show ?thesis
      by (rule forEach_rel[rotated 3]) (auto intro: accRel_trans assertFile_elem_rel IH)
  next
    case (array t es)
    then have "forEach (assertFile_elem (assertFile n ev want opts) path l a) [0..<length es] (True, s) = Inr r"
      using Suc.prems nd by (simp add: assertFile_array)
    then show ?thesis
      by (rule forEach_rel[rotated 3]) (auto intro: accRel_trans assertFile_elem_rel IH)
  next
    case (iface t c)
    then obtain ct where "assertFile n ev want opts (path @ ''.('' @ ct @ '')'') c False s = Inr r"
      using Suc.prems nd by (auto simp: assertFile_iface split: sum.splits)
    then show ?thesis by (rule IH)
  qed
qed


section \<open>What one call of \<open>setDirectory\<close> changes\<close>

lemma setDirectory_0: "setDirectory 0 ev dir l a s = Inl OutOfFuel"
  by simp

lemma setDirectory_none:
  "heap s l = None \<Longrightarrow> setDirectory (Suc n) ev dir l a s = Inl BadStore"
  by simp

lemma setDirectory_nil:
  "heap s l = Some nd \<Longrightarrow> isNil nd \<Longrightarrow> setDirectory (Suc n) ev dir l a s = Inr s"
  by simp

lemma setDirectory_noreceiver:
  "heap s l = Some nd \<Longrightarrow> \<not> isNil nd \<Longrightarrow> receiver (heap s) l a nd = Inl e \<Longrightarrow>
   setDirectory (Suc n) ev dir l a s = Inl e"
  by simp

lemma setDirectory_called:
  assumes "heap s l = Some nd" and "\<not> isNil nd" and "receiver (heap s) l a nd = Inr r"
  shows "setDirectory (Suc n) ev dir l a s =
     (case heap (callSetDirectory ev dir r s) l of
        None \<Rightarrow> Inl BadStore
      | Some nd1 \<Rightarrow>
          (case nd1 of
             NPtr t p \<Rightarrow>
               (case p of
                  None \<Rightarrow> Inl Panic
                | Some q \<Rightarrow>
                    if (t, q) \<in> set (seen (callSetDirectory ev dir r s))
                    then Inr (callSetDirectory ev dir r s)
                    else setDirectory n ev dir q True
                           ((callSetDirectory ev dir r s)
                              \<lparr>seen := (t, q) # seen (callSetDirectory ev dir r s)\<rparr>))
           | NStruct t fs pr \<Rightarrow>
               forEach (setDirectory_field (setDirectory n ev dir) a) fs (callSetDirectory ev dir r s)
           | NMap t m \<Rightarrow>
               forEach (eachEntry (setDirectory n ev dir) l) (mapKeys nd1) (callSetDirectory ev dir r s)
           | NSlice t es \<Rightarrow>
               forEach (eachElem (setDirectory n ev dir) l a) [0..<seqLen nd1] (callSetDirectory ev dir r s)
           | NArray t es \<Rightarrow>
               forEach (eachElem (setDirectory n ev dir) l a) [0..<seqLen nd1] (callSetDirectory ev dir r s)
           | NStrings t e xs \<Rightarrow>
               forEach (setDirectory_string ev dir l) [0..<length (stringsOf nd1)]
                 (callSetDirectory ev dir r s)
           | NIface t b \<Rightarrow>
               (case b of
                  None \<Rightarrow> Inl Panic
                | Some c \<Rightarrow> setDirectory n ev dir c False (callSetDirectory ev dir r s))
           | _ \<Rightarrow> Inr (callSetDirectory ev dir r s)))"
  using assms by (simp add: Let_def)

declare setDirectory.simps [simp del]

lemma setDirectory_post_refl [simp]: "setDirectory_post ev dir s s"
  by (simp add: setDirectory_post_def)

lemma seenExt_subset: "seenExt s s' \<Longrightarrow> set (seen s) \<subseteq> set (seen s')"
  by (auto simp: seenExt_def)

lemma seenExt_distinct: "seenExt s s' \<Longrightarrow> distinct (seen s) \<Longrightarrow> distinct (seen s')"
  by (auto simp: seenExt_def)

lemma setDirectory_post_trans:
  assumes "setDirectory_post ev dir s s'" and "setDirectory_post ev dir s' s''"
  shows "setDirectory_post ev dir s s''"
proof -
  from assms obtain n1 n2 where
    c1: "calls s' = calls s @ n1"
    and k1: "\<forall>k \<in> set (seen s') - set (seen s).
               implements ev (fst k) \<longrightarrow> (RPtr (fst k) (Some (snd k)), dir) \<in> set n1"
    and c2: "calls s'' = calls s' @ n2"
    and k2: "\<forall>k \<in> set (seen s'') - set (seen s').
               implements ev (fst k) \<longrightarrow> (RPtr (fst k) (Some (snd k)), dir) \<in> set n2"
    unfolding setDirectory_post_def by blast
  have "calls s'' = calls s @ (n1 @ n2)" using c1 c2 by simp
  moreover have "\<forall>k \<in> set (seen s'') - set (seen s).
      implements ev (fst k) \<longrightarrow> (RPtr (fst k) (Some (snd k)), dir) \<in> set (n1 @ n2)"
    using k1 k2 by auto
  ultimately have "\<exists>new. calls s'' = calls s @ new
      \<and> (\<forall>k \<in> set (seen s'') - set (seen s).
            implements ev (fst k) \<longrightarrow> (RPtr (fst k) (Some (snd k)), dir) \<in> set new)"
    by blast
  then show ?thesis
    using assms unfolding setDirectory_post_def
    by (auto intro: shapeEq_trans seenExt_trans)
qed

lemma callSetDirectory_post:
  "capWritesStrings ev \<Longrightarrow> setDirectory_post ev dir s (callSetDirectory ev dir r s)"
  by (auto simp: callSetDirectory_def setDirectory_post_def capWritesStrings_def seenExt_same)

lemma callSetDirectory_seen [simp]: "seen (callSetDirectory ev dir r s) = seen s"
  by (simp add: callSetDirectory_def)

lemma callSetDirectory_calls:
  "implements ev (recv_type r) \<Longrightarrow> calls (callSetDirectory ev dir r s) = calls s @ [(r, dir)]"
  by (simp add: callSetDirectory_def)

lemma setDirectory_field_post:
  assumes "\<And>l a s s'. recur l a s = Inr s' \<Longrightarrow> setDirectory_post ev dir s s'"
    and "setDirectory_field recur a tf s = Inr s'"
  shows "setDirectory_post ev dir s s'"
  using assms(2) assms(1) by (auto simp: setDirectory_field_def split: if_splits)

lemma setDirectory_string_post:
  "capWritesStrings ev \<Longrightarrow> setDirectory_string ev dir l i s = Inr s' \<Longrightarrow> setDirectory_post ev dir s s'"
  by (auto simp: setDirectory_string_def callSetDirectory_post
      split: option.splits node.splits if_splits)

lemma receiver_ptr: "receiver h l a (NPtr t p) = Inr (RPtr t p)"
  by (simp add: receiver_def)

lemma shapeEq_ptr:
  "shapeEq h h' \<Longrightarrow> h l = Some (NPtr t p) \<Longrightarrow> h' l = Some (NPtr t p)"
  by (auto simp: shapeEq_def dest!: spec[of _ l] elim!: option.rel_cases)

lemma shapeEq_dom: "shapeEq h h' \<Longrightarrow> h l = None \<longleftrightarrow> h' l = None"
  by (auto simp: shapeEq_def dest!: spec[of _ l] elim!: option.rel_cases)

lemma shapeEq_sameShape:
  "shapeEq h h' \<Longrightarrow> h l = Some nd \<Longrightarrow> \<exists>nd'. h' l = Some nd' \<and> sameShape nd nd'"
  by (auto simp: shapeEq_def dest!: spec[of _ l] elim!: option.rel_cases)

lemma setDirectory_post:
  assumes cap: "capWritesStrings ev"
  shows "setDirectory n ev dir l a s = Inr s' \<Longrightarrow> setDirectory_post ev dir s s'"
proof (induction n arbitrary: l a s s')
  case 0
  then show ?case by (simp add: setDirectory_0)
next
  case (Suc n)
  note IH = Suc.IH
  from Suc.prems obtain nd where nd: "heap s l = Some nd"
    by (cases "heap s l") (auto simp: setDirectory_none)
  show ?case
  proof (cases "isNil nd")
    case True
    then show ?thesis using Suc.prems setDirectory_nil[OF nd] by simp
  next
    case nonnil: False
    from Suc.prems obtain r where r: "receiver (heap s) l a nd = Inr r"
      using setDirectory_noreceiver[OF nd nonnil]
      by (cases "receiver (heap s) l a nd") auto
    define s1 where "s1 = callSetDirectory ev dir r s"
    have p1: "setDirectory_post ev dir s s1"
      unfolding s1_def by (rule callSetDirectory_post[OF cap])
    note unf = setDirectory_called[OF nd nonnil r, of n ev dir, folded s1_def]
    from Suc.prems unf obtain nd1 where nd1: "heap s1 l = Some nd1"
      by (cases "heap s1 l") auto
    show ?thesis
    proof (cases nd1)
      case (NPtr t p)
      then obtain q where q: "p = Some q" using Suc.prems unf nd1 by (cases p) auto
      have "shapeEq (heap s1) (heap s)"
        using p1 by (auto simp: setDirectory_post_def intro: shapeEq_sym)
      from shapeEq_ptr[OF this] nd1 NPtr q have "heap s l = Some (NPtr t (Some q))" by simp
      with nd have ndp: "nd = NPtr t (Some q)" by simp
      with r have rp: "r = RPtr t (Some q)" by (simp add: receiver_ptr)
      show ?thesis
      proof (cases "(t, q) \<in> set (seen s1)")
        case True
        then have "s' = s1" using Suc.prems unf nd1 NPtr q by simp
        then show ?thesis using p1 by simp
      next
        case nin: False
        define s2 where "s2 = s1\<lparr>seen := (t, q) # seen s1\<rparr>"
        have run: "setDirectory n ev dir q True s2 = Inr s'"
          using Suc.prems unf nd1 NPtr q nin unfolding s2_def by simp
        have "setDirectory_post ev dir s s2"
        proof -
          have sh: "shapeEq (heap s) (heap s2)"
            using p1 by (simp add: s2_def setDirectory_post_def)
          have se: "seenExt s s2"
            using nin unfolding seenExt_def s2_def s1_def
            by (intro exI[of _ "[(t, q)]"]) simp
          have rep: "reported s2 = reported s"
            using p1 by (simp add: s2_def setDirectory_post_def)
          have cl: "\<exists>new. calls s2 = calls s @ new
              \<and> (\<forall>k \<in> set (seen s2) - set (seen s).
                    implements ev (fst k) \<longrightarrow> (RPtr (fst k) (Some (snd k)), dir) \<in> set new)"
          proof (cases "implements ev t")
            case True
            then have "calls s2 = calls s @ [(r, dir)]"
              unfolding s2_def s1_def using rp by (simp add: callSetDirectory_calls)
            then show ?thesis using rp unfolding s2_def s1_def
              by (intro exI[of _ "[(r, dir)]"]) auto
          next
            case False
            then have "calls s2 = calls s @ []"
              unfolding s2_def s1_def using rp by (simp add: callSetDirectory_def)
            then show ?thesis using False unfolding s2_def s1_def
              by (intro exI[of _ "[]"]) auto
          qed
          show ?thesis unfolding setDirectory_post_def using sh se rep cl by blast
        qed
        moreover have "setDirectory_post ev dir s2 s'" using run by (rule IH)
        ultimately show ?thesis by (rule setDirectory_post_trans)
      qed
    next
      case (NStruct t fs pr)
      then have "forEach (setDirectory_field (setDirectory n ev dir) a) fs s1 = Inr s'"
        using Suc.prems unf nd1 by simp
      then have "setDirectory_post ev dir s1 s'"
        by (rule forEach_rel[rotated 3])
          (auto intro: setDirectory_post_trans setDirectory_field_post IH)
      with p1 show ?thesis by (rule setDirectory_post_trans)
    next
      case (NMap t m)
      then have "forEach (eachEntry (setDirectory n ev dir) l) (mapKeys nd1) s1 = Inr s'"
        using Suc.prems unf nd1 by simp
      then have "setDirectory_post ev dir s1 s'"
        by (rule forEach_rel[rotated 3])
          (auto intro: setDirectory_post_trans eachEntry_rel[where R = "setDirectory_post ev dir"] IH)
      with p1 show ?thesis by (rule setDirectory_post_trans)
    next
      case (NSlice t es)
      then have "forEach (eachElem (setDirectory n ev dir) l a) [0..<seqLen nd1] s1 = Inr s'"
        using Suc.prems unf nd1 by simp
      then have "setDirectory_post ev dir s1 s'"
        by (rule forEach_rel[rotated 3])
          (auto intro: setDirectory_post_trans eachElem_rel[where R = "setDirectory_post ev dir"] IH)
      with p1 show ?thesis by (rule setDirectory_post_trans)
    next
      case (NArray t es)
      then have "forEach (eachElem (setDirectory n ev dir) l a) [0..<seqLen nd1] s1 = Inr s'"
        using Suc.prems unf nd1 by simp
      then have "setDirectory_post ev dir s1 s'"
        by (rule forEach_rel[rotated 3])
          (auto intro: setDirectory_post_trans eachElem_rel[where R = "setDirectory_post ev dir"] IH)
      with p1 show ?thesis by (rule setDirectory_post_trans)
    next
      case (NStrings t e xs)
      then have "forEach (setDirectory_string ev dir l) [0..<length (stringsOf nd1)] s1 = Inr s'"
        using Suc.prems unf nd1 by simp
      then have "setDirectory_post ev dir s1 s'"
        by (rule forEach_rel[rotated 3])
          (auto intro: setDirectory_post_trans setDirectory_string_post[OF cap])
      with p1 show ?thesis by (rule setDirectory_post_trans)
    next
      case (NIface t b)
      then obtain c where "b = Some c" using Suc.prems unf nd1 by (cases b) auto
      then have "setDirectory n ev dir c False s1 = Inr s'"
        using Suc.prems unf nd1 NIface by simp
      then have "setDirectory_post ev dir s1 s'" by (rule IH)
      with p1 show ?thesis by (rule setDirectory_post_trans)
    next
      case (NString t x)
      then have "s' = s1" using Suc.prems unf nd1 by simp
      then show ?thesis using p1 by simp
    next
      case (NScalar t)
      then have "s' = s1" using Suc.prems unf nd1 by simp
      then show ?thesis using p1 by simp
    next
      case (NOpaque t x)
      then have "s' = s1" using Suc.prems unf nd1 by simp
      then show ?thesis using p1 by simp
    qed
  qed
qed


section \<open>The three operations, from the top\<close>

lemma seenExt_newState:
  "seenExt (newState h) s' \<Longrightarrow> distinct (seen s')"
  by (auto simp: seenExt_def newState_def)

lemma count_list_pos: "x \<in> set xs \<Longrightarrow> 1 \<le> count_list xs x"
  using count_list_0_iff[of xs x] by (cases "count_list xs x") auto

lemma capWritesStrings_joinField: "shapeEq h (joinField h p name dir)"
  by (auto simp: joinField_def intro!: shapeEq_upd split: option.splits node.splits)

lemma capWritesStrings_testEnv: "capWritesStrings testEnv"
  by (auto simp: capWritesStrings_def testEnv_def testApply_def capWritesStrings_joinField
      split: recv.splits option.splits)

text \<open>
  Claim C10. A call of \<open>AssertFile\<close> that returns leaves the store as it was: every
  location holds after the call what it held before.
\<close>

theorem AssertFile_keeps_store:
  assumes "AssertFile n ev config path options h = Inr r"
  shows "heap (snd r) = h"
proof -
  from assms obtain l ty where
    "assertFile n ev path (applyOptions options) (''('' @ ty @ '')'') l False (newState h) = Inr r"
    by (auto simp: AssertFile_def split: option.splits sum.splits)
  then have "accRel path (True, newState h) r" by (rule assertFile_rel)
  then show ?thesis by (simp add: accRel_def newState_def)
qed

theorem AssertFile_keeps_store_witness:
  "(case AssertFile 9 testEnv (Some 0) ''/data/foo/bar/hello/file'' [] sliceStore of
      Inl e \<Rightarrow> False
    | Inr r \<Rightarrow> heap (snd r) = sliceStore \<and> \<not> fst r)"
proof -
  have run: "(case AssertFile 9 testEnv (Some 0) ''/data/foo/bar/hello/file'' [] sliceStore of
      Inl e \<Rightarrow> False | Inr r \<Rightarrow> \<not> fst r)"
    by code_simp
  then show ?thesis
    using AssertFile_keeps_store[of 9 testEnv "Some 0" "''/data/foo/bar/hello/file''" "[]" sliceStore]
    by (cases "AssertFile 9 testEnv (Some 0) ''/data/foo/bar/hello/file'' [] sliceStore") auto
qed

text \<open>On the cyclic value of the tests there is one pointer node, and one call of
  \<open>SetDirectory\<close> invokes its method three times: when the walk meets the pointer, through
  the address of the struct it points to, and when the walk meets the pointer again in
  the field \<^verbatim>\<open>Self\<close>, where only the descent is held back by the set of seen keys.\<close>

theorem SetDirectory_calls_cyclic_thrice:
  "(case SetDirectory 5 testEnv (Some 0) ''/data'' cycStore of
      Inl e \<Rightarrow> False
    | Inr s \<Rightarrow> seen s = [(''*configtest.cyclic'', 1)]
             \<and> map fst (calls s) = [RPtr ''*configtest.cyclic'' (Some 1),
                                     RPtr ''*configtest.cyclic'' (Some 1),
                                     RPtr ''*configtest.cyclic'' (Some 1)])"
  by code_simp

text \<open>
  Claim C1, amended. Under the capability's contract (it rewrites strings only), one call
  of \<open>SetDirectory\<close> descends into every pointer it descends into once (the keys seen are
  distinct), and it invokes the capability of every such pointer whose type has it at
  least once, with the pointer as receiver: the invocation comes before the set of seen
  keys is looked at, so it is repeated each time the walk meets the pointer and made again
  through the address of what the pointer points to; the set holds back the descent, not
  the invocation.
\<close>

theorem SetDirectory_calls_each_seen:
  assumes "capWritesStrings ev" and "SetDirectory n ev config dir h = Inr s"
  shows "distinct (seen s)
       \<and> (\<forall>k \<in> set (seen s). implements ev (fst k) \<longrightarrow>
            1 \<le> count_list (calls s) (RPtr (fst k) (Some (snd k)), dir))"
proof -
  from assms(2) obtain l where "setDirectory n ev dir l False (newState h) = Inr s"
    by (auto simp: SetDirectory_def split: option.splits)
  from setDirectory_post[OF assms(1) this]
  have p: "setDirectory_post ev dir (newState h) s" .
  then have d: "distinct (seen s)"
    by (auto simp: setDirectory_post_def intro: seenExt_newState)
  from p have "\<forall>k \<in> set (seen s). implements ev (fst k) \<longrightarrow>
      (RPtr (fst k) (Some (snd k)), dir) \<in> set (calls s)"
    by (auto simp: setDirectory_post_def newState_def)
  then have "\<forall>k \<in> set (seen s). implements ev (fst k) \<longrightarrow>
      1 \<le> count_list (calls s) (RPtr (fst k) (Some (snd k)), dir)"
    using count_list_pos by fastforce
  with d show ?thesis by simp
qed

theorem SetDirectory_calls_each_seen_witness:
  "(case SetDirectory 5 testEnv (Some 0) ''/data'' cycStore of
      Inl e \<Rightarrow> False
    | Inr s \<Rightarrow> seen s \<noteq> [] \<and> distinct (seen s)
        \<and> (\<forall>k \<in> set (seen s). implements testEnv (fst k) \<longrightarrow>
            1 \<le> count_list (calls s) (RPtr (fst k) (Some (snd k)), ''/data'')))"
proof -
  have run: "(case SetDirectory 5 testEnv (Some 0) ''/data'' cycStore of
      Inl e \<Rightarrow> False | Inr s \<Rightarrow> seen s \<noteq> [])"
    by code_simp
  then show ?thesis
    using SetDirectory_calls_each_seen[OF capWritesStrings_testEnv, of 5 "Some 0" "''/data''" cycStore]
    by (cases "SetDirectory 5 testEnv (Some 0) ''/data'' cycStore") auto
qed

text \<open>A \<^verbatim>\<open>fooSetter\<close> behind an unexported field: \<open>SetDirectory\<close> neither calls it nor
  descends into it, and its file stays as it was.\<close>

theorem SetDirectory_skips_unexported:
  "(case SetDirectory 5 testEnv (Some 0) ''/data'' holderStore of
      Inl e \<Rightarrow> False
    | Inr s \<Rightarrow> implements testEnv ''*configtest.fooSetter''
             \<and> (''*configtest.fooSetter'', 3) \<notin> set (seen s)
             \<and> RPtr ''*configtest.fooSetter'' (Some 3) \<notin> set (map fst (calls s))
             \<and> heap s 5 = Some (NString ''string'' ''hello/file''))"
  by code_simp

text \<open>
  Claim C3, amended. A field that is not exported is passed over by all three operations:
  the loop bodies of \<open>setFile\<close>, \<open>assertFile\<close> and \<open>setDirectory\<close> leave the state as it is
  and make no recursive call, whatever the field holds.
\<close>

theorem unexported_field_skipped:
  assumes "\<not> exported name"
  shows "setFile_field recur file opts typ fs a (name, vf) s = Inr s
       \<and> assertFile_field recurA path want opts typ a (name, vf) acc = Inr acc
       \<and> setDirectory_field recurD a (name, vf) s = Inr s"
  using assms by (simp add: setFile_field_def assertFile_field_def setDirectory_field_def)

theorem unexported_field_skipped_witness:
  "\<not> exported ''child''
   \<and> setFile_field (\<lambda>l a s. Inl Panic) ''p'' noFields ''configtest.holder'' [(''child'', Some 2)] True
        (''child'', 2) (newState holderStore) = Inr (newState holderStore)
   \<and> assertFile_field (\<lambda>p l a s. Inl Panic) ''(x)'' ''p'' noFields ''configtest.holder'' True
        (''child'', 2) (True, newState holderStore) = Inr (True, newState holderStore)
   \<and> setDirectory_field (\<lambda>l a s. Inl Panic) True (''child'', 2) (newState holderStore)
        = Inr (newState holderStore)"
proof -
  have u: "\<not> exported ''child''" by (simp add: exported_def isUpper_def)
  show ?thesis using u unexported_field_skipped[OF u] by simp
qed


section \<open>Runs in step\<close>


lemma sameShape_cases: "sameShape nd nd' \<Longrightarrow> (inert nd \<and> inert nd') \<or> nd' = nd"
  by (cases nd) auto

lemma sameShape_is_stringTyp: "sameShape nd nd' \<Longrightarrow> is_stringTyp nd' = is_stringTyp nd"
  by (cases nd) auto

lemma sameShape_is_stringSliceTyp:
  "sameShape nd nd' \<Longrightarrow> is_stringSliceTyp nd' = is_stringSliceTyp nd"
  by (cases nd) auto












section \<open>Idempotence of \<open>SetFile\<close>\<close>







section \<open>Termination\<close>

lemma haltsI: "r \<noteq> Inl OutOfFuel \<Longrightarrow> (\<And>m. N \<le> m \<Longrightarrow> f m = r) \<Longrightarrow> halts f"
  unfolding halts_def by blast

lemma halts_const: "r \<noteq> Inl OutOfFuel \<Longrightarrow> halts (\<lambda>m. r)"
  by (rule haltsI[where N = 0]) auto

lemma halts_Suc:
  assumes "halts f" and "\<And>m. g (Suc m) = f m"
  shows "halts g"
proof -
  from assms(1) obtain N r where r: "r \<noteq> Inl OutOfFuel" and st: "\<forall>m\<ge>N. f m = r"
    unfolding halts_def by blast
  show ?thesis
  proof (rule haltsI[OF r, where N = "Suc N"])
    fix m assume "Suc N \<le> m"
    then obtain k where "m = Suc k" "N \<le> k" by (cases m) auto
    then show "g m = r" using assms(2) st by simp
  qed
qed

lemma halts_bind:
  assumes "halts f" and "\<And>m x. f m = Inr x \<Longrightarrow> halts (\<lambda>k. g k x)"
  shows "halts (\<lambda>m. case f m of Inl e \<Rightarrow> Inl e | Inr x \<Rightarrow> g m x)"
proof -
  from assms(1) obtain N r where r: "r \<noteq> Inl OutOfFuel" and st: "\<forall>m\<ge>N. f m = r"
    unfolding halts_def by blast
  show ?thesis
  proof (cases r)
    case (Inl e)
    show ?thesis
      by (rule haltsI[where N = N and r = "Inl e"]) (use Inl r st in auto)
  next
    case (Inr x)
    then have "f N = Inr x" using st by simp
    from assms(2)[OF this] obtain M q where q: "q \<noteq> Inl OutOfFuel" and sq: "\<forall>k\<ge>M. g k x = q"
      unfolding halts_def by blast
    show ?thesis
      by (rule haltsI[OF q, where N = "max N M"]) (use Inr st sq in auto)
  qed
qed

lemma halts_result:
  assumes "halts f"
  obtains N r where "r \<noteq> Inl OutOfFuel" and "\<And>m. N \<le> m \<Longrightarrow> f m = r"
  using assms unfolding halts_def by blast

lemma forEach_halts:
  assumes body: "\<And>x s. x \<in> set xs \<Longrightarrow> I s \<Longrightarrow> halts (\<lambda>m. body m x s)"
    and inv: "\<And>x s s' m. x \<in> set xs \<Longrightarrow> I s \<Longrightarrow> body m x s = Inr s' \<Longrightarrow> I s'"
    and "I s"
  shows "halts (\<lambda>m. forEach (body m) xs s)"
  using assms
proof (induction xs arbitrary: s)
  case Nil
  show ?case by (simp add: halts_const)
next
  case (Cons x xs)
  have "halts (\<lambda>m. case body m x s of Inl e \<Rightarrow> Inl e | Inr s' \<Rightarrow> forEach (body m) xs s')"
  proof (rule halts_bind)
    show "halts (\<lambda>m. body m x s)" using Cons.prems(1)[of x s] Cons.prems(3) by simp
  next
    fix m s' assume b: "body m x s = Inr s'"
    have "I s'" by (rule Cons.prems(2)[OF _ Cons.prems(3) b]) simp
    then show "halts (\<lambda>k. forEach (body k) xs s')"
      using Cons.IH[of s'] Cons.prems(1,2) by (metis list.set_intros(2))
  qed
  then show ?case by simp
qed

lemma ranked_shapeEq: "ranked rk h \<Longrightarrow> shapeEq h h' \<Longrightarrow> ranked rk h'"
  unfolding ranked_def
proof (intro allI impI)
  fix l nd' assume rk: "\<forall>l nd. h l = Some nd \<longrightarrow> (\<forall>c\<in>children nd. rk c < rk l)"
    and sh: "shapeEq h h'" and nd': "h' l = Some nd'"
  from shapeEq_sameShape[OF shapeEq_sym[OF sh] nd'] obtain nd where nd: "h l = Some nd"
    and s: "sameShape nd' nd" by blast
  have "children nd' = children nd" using s by (cases nd') auto
  then show "\<forall>c\<in>children nd'. rk c < rk l" using rk nd by auto
qed

lemma ptrKeys_shapeEq: "shapeEq h h' \<Longrightarrow> ptrKeys h' = ptrKeys h"
  unfolding ptrKeys_def
  using shapeEq_ptr[of h h'] shapeEq_ptr[OF shapeEq_sym, of h h'] by blast

lemma finite_ptrKeys:
  assumes "finite (dom h)"
  shows "finite (ptrKeys h)"
proof -
  let ?f = "\<lambda>l. case h l of Some (NPtr t (Some q)) \<Rightarrow> (t, q) | _ \<Rightarrow> ([], 0)"
  have "ptrKeys h \<subseteq> ?f ` dom h"
  proof
    fix k assume "k \<in> ptrKeys h"
    then obtain t q l where k: "k = (t, q)" and l: "h l = Some (NPtr t (Some q))"
      unfolding ptrKeys_def by blast
    have "?f l = k" using k l by simp
    moreover have "l \<in> dom h" using l by auto
    ultimately show "k \<in> ?f ` dom h" by blast
  qed
  then show ?thesis using assms by (meson finite_imageI finite_subset)
qed

lemma ranked_child: "ranked rk h \<Longrightarrow> h l = Some nd \<Longrightarrow> c \<in> children nd \<Longrightarrow> rk c < rk l"
  by (auto simp: ranked_def)

lemma seqIndex_child:
  "seqIndex h l a i = Inr (el, ea) \<Longrightarrow> \<exists>nd. h l = Some nd \<and> el \<in> children nd"
  by (auto simp: seqIndex_def split: option.splits node.splits if_splits)

lemma mapIndex_child:
  "mapIndex h l k = Inr v \<Longrightarrow> \<exists>nd. h l = Some nd \<and> v \<in> children nd"
  by (auto simp: mapIndex_def split: option.splits node.splits dest!: map_of_SomeD
      intro!: rev_image_eqI)

lemma card_unseen_le:
  "finite U \<Longrightarrow> set xs \<subseteq> set ys \<Longrightarrow> card (U - set ys) \<le> card (U - set xs)"
  by (rule card_mono) auto

lemma card_unseen_less:
  "finite U \<Longrightarrow> k \<in> U \<Longrightarrow> k \<notin> set xs \<Longrightarrow> card (U - set (k # xs)) < card (U - set xs)"
  by (rule psubset_card_mono) auto

lemma ifaceType_halts:
  "ranked rk h \<Longrightarrow> halts (\<lambda>m. ifaceType m h l)"
proof (induction "rk l" arbitrary: l rule: less_induct)
  case less
  show ?case
  proof (cases "h l")
    case None
    show ?thesis by (rule halts_Suc[OF halts_const[of "Inl BadStore"]]) (use None in auto)
  next
    case (Some nd)
    show ?thesis
    proof (cases "\<exists>t c. nd = NIface t (Some c)")
      case True
      then obtain t c where nd: "nd = NIface t (Some c)" by blast
      have "rk c < rk l" using ranked_child[OF less.prems Some] nd by simp
      from less.hyps[OF this less.prems] show ?thesis
        by (rule halts_Suc) (use Some nd in auto)
    next
      case False
      show ?thesis
        by (rule halts_Suc[OF halts_const[of "Inr (type_name nd)"]])
          (use Some False in \<open>auto split: node.splits option.splits\<close>)
    qed
  qed
qed


lemma clearSibling_fuel: "clearSibling fs name s \<noteq> Inl OutOfFuel"
  by (auto simp: clearSibling_def split: option.splits node.splits)

lemma setFile_field_halts:
  assumes "halts (\<lambda>m. recur m (snd tf) a s)"
  shows "halts (\<lambda>m. setFile_field (recur m) file opts typ fs a tf s)"
proof -
  obtain name vf where tf: "tf = (name, vf)" by (cases tf)
  show ?thesis
  proof (cases "\<not> (a \<and> exported name) \<or> excl opts (typ, name)")
    case True
    then show ?thesis using tf by (simp add: setFile_field_def halts_const)
  next
    case False
    show ?thesis
    proof (cases "heap s vf")
      case None
      then show ?thesis using tf False by (simp add: setFile_field_def halts_const)
    next
      case (Some fnode)
      consider (single) "is_stringTyp fnode \<and> (hasSuffix name ''File'' \<or> incl opts (typ, name))"
        | (plural) "\<not> (is_stringTyp fnode \<and> (hasSuffix name ''File'' \<or> incl opts (typ, name)))"
            "is_stringSliceTyp fnode \<and> (hasSuffix name ''Files'' \<or> incl opts (typ, name))"
        | (other) "\<not> (is_stringTyp fnode \<and> (hasSuffix name ''File'' \<or> incl opts (typ, name)))"
            "\<not> (is_stringSliceTyp fnode \<and> (hasSuffix name ''Files'' \<or> incl opts (typ, name)))"
        by blast
      then show ?thesis
      proof cases
        case single
        have "(case clearSibling fs (trimSuffix name ''File'') s of
                  Inl e \<Rightarrow> Inl e
                | Inr s1 \<Rightarrow> Inr (s1\<lparr>heap := (heap s1)(vf \<mapsto> NString stringTyp file)\<rparr>))
              \<noteq> Inl OutOfFuel"
          using clearSibling_fuel[of fs "trimSuffix name ''File''" s] by (auto split: sum.splits)
        from halts_const[OF this] show ?thesis
          using tf False Some single by (simp add: setFile_field_def)
      next
        case plural
        then show ?thesis using tf False Some by (auto simp: setFile_field_def halts_const)
      next
        case other
        then have "(\<lambda>m. setFile_field (recur m) file opts typ fs a tf s) = (\<lambda>m. recur m vf a s)"
          using tf False Some by (auto simp: setFile_field_def)
        then show ?thesis using assms tf by simp
      qed
    qed
  qed
qed

lemma mapIndex_fuel: "mapIndex h l k \<noteq> Inl OutOfFuel"
  by (auto simp: mapIndex_def split: option.splits node.splits)

lemma seqIndex_fuel: "seqIndex h l a i \<noteq> Inl OutOfFuel"
  by (auto simp: seqIndex_def split: option.splits node.splits)

lemma eachEntry_halts:
  assumes k: "halts (\<lambda>m. recur m key False s)"
    and v: "\<And>m s1 v. recur m key False s = Inr s1 \<Longrightarrow> mapIndex (heap s1) l key = Inr v
              \<Longrightarrow> halts (\<lambda>j. recur j v False s1)"
  shows "halts (\<lambda>m. eachEntry (recur m) l key s)"
  unfolding eachEntry_def
proof (rule halts_bind[OF k])
  fix m s1 assume r: "recur m key False s = Inr s1"
  show "halts (\<lambda>j. case mapIndex (heap s1) l key of Inl e \<Rightarrow> Inl e | Inr v \<Rightarrow> recur j v False s1)"
  proof (cases "mapIndex (heap s1) l key")
    case (Inl e)
    then show ?thesis using mapIndex_fuel[of "heap s1" l key] by (simp add: halts_const)
  next
    case (Inr v)
    then show ?thesis using v[OF r Inr] by simp
  qed
qed

lemma eachElem_halts:
  assumes "\<And>el ea. seqIndex (heap s) l a i = Inr (el, ea) \<Longrightarrow> halts (\<lambda>m. recur m el ea s)"
  shows "halts (\<lambda>m. eachElem (recur m) l a i s)"
proof (cases "seqIndex (heap s) l a i")
  case (Inl e)
  then show ?thesis using seqIndex_fuel[of "heap s" l a i] by (simp add: eachElem_def halts_const)
next
  case (Inr x)
  obtain el ea where x: "x = (el, ea)" by (cases x)
  show ?thesis using assms[of el ea] Inr x by (simp add: eachElem_def)
qed

lemma setFile_post_inv:
  fixes s s' :: state
  assumes "setFile_post s s'" and "ranked rk (heap s)" and "ptrKeys (heap s) \<subseteq> U"
    and "set ks \<subseteq> set (seen s)"
  shows "ranked rk (heap s') \<and> ptrKeys (heap s') \<subseteq> U \<and> set ks \<subseteq> set (seen s')"
  using assms ranked_shapeEq[of rk "heap s" "heap s'"] ptrKeys_shapeEq[of "heap s" "heap s'"]
    seenExt_subset[of s s']
  by (auto simp: setFile_post_def)

lemma setFile_halts_aux:
  assumes fin: "finite U"
  shows "\<forall>l a s. p = (card (U - set (seen s)), rk l) \<longrightarrow> ranked rk (heap s)
           \<longrightarrow> ptrKeys (heap s) \<subseteq> U \<longrightarrow> halts (\<lambda>m. setFile m file opts l a s)"
proof (induction p rule: wf_induct_rule[OF wf_lex_prod[OF wf_less_than wf_less_than]])
  case (1 p)
  show ?case
  proof (intro allI impI)
    fix l a and s :: state
    assume p: "p = (card (U - set (seen s)), rk l)"
      and rk: "ranked rk (heap s)" and ks: "ptrKeys (heap s) \<subseteq> U"
    have IH: "halts (\<lambda>m. setFile m file opts l' a' s')"
      if "ranked rk (heap s')" "ptrKeys (heap s') \<subseteq> U"
        "card (U - set (seen s')) < card (U - set (seen s))
         \<or> (card (U - set (seen s')) \<le> card (U - set (seen s)) \<and> rk l' < rk l)"
      for l' a' s'
    proof -
      have "((card (U - set (seen s')), rk l'), p) \<in> less_than <*lex*> less_than"
        using that(3) p by auto
      from 1[OF this] that(1,2) show ?thesis by blast
    qed
    define I where "I = (\<lambda>s'::state. ranked rk (heap s') \<and> ptrKeys (heap s') \<subseteq> U
                              \<and> set (seen s) \<subseteq> set (seen s'))"
    have I0: "I s" using rk ks by (simp add: I_def)
    have Ipost: "I s''" if "I s'" "setFile_post s' s''" for s' s''
      using that setFile_post_inv[of s' s'' rk U "seen s"] by (simp add: I_def)
    have child: "halts (\<lambda>m. setFile m file opts c a' s')" if "I s'" "rk c < rk l" for c a' s'
      using that IH[of s' c a'] card_unseen_le[OF fin, of "seen s" "seen s'"] by (simp add: I_def)
    show "halts (\<lambda>m. setFile m file opts l a s)"
    proof (cases "heap s l")
      case None
      show ?thesis
        by (rule halts_Suc[OF halts_const[of "Inl BadStore"]]) (use None in \<open>auto simp: setFile_none\<close>)
    next
      case (Some nd)
      show ?thesis
      proof (cases nd rule: node_walk_cases)
        case inert
        show ?thesis
          by (rule halts_Suc[OF halts_const[of "Inr s"]]) (use Some inert in \<open>auto simp: setFile_inert\<close>)
      next
        case (ptr t q)
        show ?thesis
        proof (cases "(t, q) \<in> set (seen s)")
          case True
          show ?thesis
            by (rule halts_Suc[OF halts_const[of "Inr s"]])
              (use Some ptr True in \<open>auto simp: setFile_ptr\<close>)
        next
          case False
          have "(t, q) \<in> U" using ks Some ptr by (auto simp: ptrKeys_def)
          from card_unseen_less[OF fin this False]
          have "halts (\<lambda>m. setFile m file opts q True (s\<lparr>seen := (t, q) # seen s\<rparr>))"
            using rk ks by (intro IH) auto
          then show ?thesis
            by (rule halts_Suc) (use Some ptr False in \<open>auto simp: setFile_ptr\<close>)
        qed
      next
        case (struct t fs pr)
        have "halts (\<lambda>m. forEach (setFile_field (setFile m file opts) file opts t (byName fs pr) a) fs s)"
        proof (rule forEach_halts[where I = I, OF _ _ I0])
          fix x s' assume x: "x \<in> set fs" and i: "I s'"
          have "rk (snd x) < rk l" using ranked_child[OF rk Some] struct x by auto
          from child[OF i this] show "halts (\<lambda>m. setFile_field (setFile m file opts) file opts t (byName fs pr) a x s')"
            by (rule setFile_field_halts)
        next
          fix x s' s'' m
          assume "I s'" "setFile_field (setFile m file opts) file opts t (byName fs pr) a x s' = Inr s''"
          then show "I s''" using Ipost setFile_field_post' by blast
        qed
        then show ?thesis
          by (rule halts_Suc) (use Some struct in \<open>auto simp: setFile_struct\<close>)
      next
        case (map t kvs)
        have "halts (\<lambda>m. forEach (eachEntry (setFile m file opts) l) (map fst kvs) s)"
        proof (rule forEach_halts[where I = I, OF _ _ I0])
          fix k s' assume k: "k \<in> set (map fst kvs)" and i: "I s'"
          have rkk: "rk k < rk l" using ranked_child[OF rk Some] map k by auto
          show "halts (\<lambda>m. eachEntry (setFile m file opts) l k s')"
          proof (rule eachEntry_halts)
            show "halts (\<lambda>m. setFile m file opts k False s')" by (rule child[OF i rkk])
          next
            fix m s1 v
            assume r: "setFile m file opts k False s' = Inr s1"
              and v: "mapIndex (heap s1) l k = Inr v"
            have i1: "I s1" using Ipost[OF i setFile_post[OF r]] .
            from mapIndex_child[OF v] obtain nd1 where "heap s1 l = Some nd1" "v \<in> children nd1"
              by blast
            then have "rk v < rk l" using ranked_child[of rk "heap s1" l nd1 v] i1
              by (simp add: I_def)
            from child[OF i1 this] show "halts (\<lambda>j. setFile j file opts v False s1)" .
          qed
        next
          fix x s' s'' m
          assume "I s'" "eachEntry (setFile m file opts) l x s' = Inr s''"
          then show "I s''" using Ipost setFile_entry_post by blast
        qed
        then show ?thesis
          by (rule halts_Suc) (use Some map in \<open>auto simp: setFile_map\<close>)
      next
        case (slice t es)
        have "halts (\<lambda>m. forEach (eachElem (setFile m file opts) l a) [0..<length es] s)"
        proof (rule forEach_halts[where I = I, OF _ _ I0])
          fix i s' assume i: "I s'"
          show "halts (\<lambda>m. eachElem (setFile m file opts) l a i s')"
          proof (rule eachElem_halts)
            fix el ea assume "seqIndex (heap s') l a i = Inr (el, ea)"
            from seqIndex_child[OF this] obtain nd1 where "heap s' l = Some nd1" "el \<in> children nd1"
              by blast
            then have "rk el < rk l" using ranked_child[of rk "heap s'" l nd1 el] i
              by (simp add: I_def)
            from child[OF i this] show "halts (\<lambda>m. setFile m file opts el ea s')" .
          qed
        next
          fix x s' s'' m
          assume "I s'" "eachElem (setFile m file opts) l a x s' = Inr s''"
          then show "I s''" using Ipost setFile_elem_post by blast
        qed
        then show ?thesis
          by (rule halts_Suc) (use Some slice in \<open>auto simp: setFile_slice\<close>)
      next
        case (array t es)
        have "halts (\<lambda>m. forEach (eachElem (setFile m file opts) l a) [0..<length es] s)"
        proof (rule forEach_halts[where I = I, OF _ _ I0])
          fix i s' assume i: "I s'"
          show "halts (\<lambda>m. eachElem (setFile m file opts) l a i s')"
          proof (rule eachElem_halts)
            fix el ea assume "seqIndex (heap s') l a i = Inr (el, ea)"
            from seqIndex_child[OF this] obtain nd1 where "heap s' l = Some nd1" "el \<in> children nd1"
              by blast
            then have "rk el < rk l" using ranked_child[of rk "heap s'" l nd1 el] i
              by (simp add: I_def)
            from child[OF i this] show "halts (\<lambda>m. setFile m file opts el ea s')" .
          qed
        next
          fix x s' s'' m
          assume "I s'" "eachElem (setFile m file opts) l a x s' = Inr s''"
          then show "I s''" using Ipost setFile_elem_post by blast
        qed
        then show ?thesis
          by (rule halts_Suc) (use Some array in \<open>auto simp: setFile_array\<close>)
      next
        case (iface t c)
        have "rk c < rk l" using ranked_child[OF rk Some] iface by simp
        from child[OF I0 this] show ?thesis
          by (rule halts_Suc) (use Some iface in \<open>auto simp: setFile_iface\<close>)
      qed
    qed
  qed
qed

lemma setFile_halts:
  assumes "finite (dom (heap s))" and "ranked rk (heap s)"
  shows "halts (\<lambda>m. setFile m file opts l a s)"
  using setFile_halts_aux[OF finite_ptrKeys[OF assms(1)],
      where p = "(card (ptrKeys (heap s) - set (seen s)), rk l)" and rk = rk] assms(2)
  by blast


lemma halts_shift: "halts f \<Longrightarrow> halts (\<lambda>m. f (Suc m))"
  unfolding halts_def by (metis le_SucI)

lemma forEach_total:
  assumes "\<And>x s. \<exists>s'. body x s = Inr s'"
  shows "\<exists>s'. forEach body xs s = Inr s'"
proof (induction xs arbitrary: s)
  case Nil
  show ?case by simp
next
  case (Cons x xs)
  from assms[of x s] obtain s1 where "body x s = Inr s1" by blast
  then show ?case using Cons.IH[of s1] by simp
qed

lemma assertFile_strings_total:
  "\<exists>acc'. forEach (assertFile_string place want) xs acc = Inr acc'"
  by (rule forEach_total) (auto simp: assertFile_string_def Let_def)

lemma assertFile_field_halts:
  assumes "halts (\<lambda>m. recur m (path @ ''.'' @ fst tf) (snd tf) a (snd acc))"
  shows "halts (\<lambda>m. assertFile_field (recur m) path want opts typ a tf acc)"
proof -
  obtain name vf where tf: "tf = (name, vf)" by (cases tf)
  show ?thesis
  proof (cases "\<not> (a \<and> exported name) \<or> excl opts (typ, name)")
    case True
    then show ?thesis using tf by (simp add: assertFile_field_def halts_const)
  next
    case False
    show ?thesis
    proof (cases "heap (snd acc) vf")
      case None
      then show ?thesis using tf False by (simp add: assertFile_field_def halts_const)
    next
      case (Some fnode)
      consider (single) "is_stringTyp fnode \<and> (hasSuffix name ''File'' \<or> incl opts (typ, name))"
        | (plural) "\<not> (is_stringTyp fnode \<and> (hasSuffix name ''File'' \<or> incl opts (typ, name)))"
            "is_stringSliceTyp fnode \<and> (hasSuffix name ''Files'' \<or> incl opts (typ, name))"
        | (other) "\<not> (is_stringTyp fnode \<and> (hasSuffix name ''File'' \<or> incl opts (typ, name)))"
            "\<not> (is_stringSliceTyp fnode \<and> (hasSuffix name ''Files'' \<or> incl opts (typ, name)))"
        by blast
      then show ?thesis
      proof cases
        case single
        then show ?thesis using tf False Some
          by (auto simp: assertFile_field_def Let_def halts_const)
      next
        case plural
        from assertFile_strings_total obtain acc' where
          "forEach (assertFile_string (path @ ''.'' @ name) want)
             (zip [0..<length (stringsOf fnode)] (stringsOf fnode)) acc = Inr acc'" by blast
        then have "(\<lambda>m. assertFile_field (recur m) path want opts typ a tf acc) = (\<lambda>m. Inr acc')"
          using tf False Some plural by (auto simp: assertFile_field_def Let_def)
        then show ?thesis by (simp add: halts_const)
      next
        case other
        have "halts (\<lambda>m. case recur m (path @ ''.'' @ name) vf a (snd acc) of
                  Inl e \<Rightarrow> Inl e
                | Inr r \<Rightarrow> Inr (fst acc \<and> fst r, snd r))"
          by (rule halts_bind) (use assms tf in \<open>auto simp: halts_const\<close>)
        moreover have "(\<lambda>m. assertFile_field (recur m) path want opts typ a tf acc)
            = (\<lambda>m. case recur m (path @ ''.'' @ name) vf a (snd acc) of
                  Inl e \<Rightarrow> Inl e
                | Inr r \<Rightarrow> Inr (fst acc \<and> fst r, snd r))"
          using tf False Some other by (auto simp: assertFile_field_def Let_def)
        ultimately show ?thesis by simp
      qed
    qed
  qed
qed

lemma assertFile_entry_halts:
  assumes t: "halts (\<lambda>m. ifaceType m (heap (snd acc)) key)"
    and k: "\<And>kt. halts (\<lambda>m. recur m (''('' @ kt @ '')'') key False (snd acc))"
    and v: "\<And>m kt r1 v p. recur m (''('' @ kt @ '')'') key False (snd acc) = Inr r1
              \<Longrightarrow> mapIndex (heap (snd r1)) l key = Inr v
              \<Longrightarrow> halts (\<lambda>j. recur j p v False (snd r1))"
  shows "halts (\<lambda>m. assertFile_entry (recur m) m ev path l key acc)"
  unfolding assertFile_entry_def
proof (rule halts_bind[OF t])
  fix m0 kt assume "ifaceType m0 (heap (snd acc)) key = Inr kt"
  show "halts (\<lambda>j. case recur j (''('' @ kt @ '')'') key False (snd acc) of
           Inl e \<Rightarrow> Inl e
         | Inr r1 \<Rightarrow>
             (let valPath = path @ ''['' @ formatValue ev (heap (snd r1)) key @ '']'' in
              case mapIndex (heap (snd r1)) l key of
                Inl e \<Rightarrow> Inl e
              | Inr v \<Rightarrow>
                  (case recur j valPath v False (snd r1) of
                     Inl e \<Rightarrow> Inl e
                   | Inr r2 \<Rightarrow> Inr (fst acc \<and> fst r1 \<and> fst r2, snd r2))))"
  proof (rule halts_bind[OF k])
    fix m r1 assume r1: "recur m (''('' @ kt @ '')'') key False (snd acc) = Inr r1"
    show "halts (\<lambda>j. let valPath = path @ ''['' @ formatValue ev (heap (snd r1)) key @ '']'' in
              case mapIndex (heap (snd r1)) l key of
                Inl e \<Rightarrow> Inl e
              | Inr v \<Rightarrow>
                  (case recur j valPath v False (snd r1) of
                     Inl e \<Rightarrow> Inl e
                   | Inr r2 \<Rightarrow> Inr (fst acc \<and> fst r1 \<and> fst r2, snd r2)))"
    proof (cases "mapIndex (heap (snd r1)) l key")
      case (Inl e)
      then show ?thesis using mapIndex_fuel[of "heap (snd r1)" l key] by (simp add: halts_const)
    next
      case (Inr v')
      have "halts (\<lambda>j. case recur j (path @ ''['' @ formatValue ev (heap (snd r1)) key @ '']'')
                           v' False (snd r1) of
                     Inl e \<Rightarrow> Inl e
                   | Inr r2 \<Rightarrow> Inr (fst acc \<and> fst r1 \<and> fst r2, snd r2))"
        by (rule halts_bind[OF v[OF r1 Inr]]) (simp add: halts_const)
      then show ?thesis using Inr by simp
    qed
  qed
qed

lemma assertFile_elem_halts:
  assumes "\<And>el ea p. seqIndex (heap (snd acc)) l a i = Inr (el, ea)
             \<Longrightarrow> halts (\<lambda>m. recur m p el ea (snd acc))"
  shows "halts (\<lambda>m. assertFile_elem (recur m) path l a i acc)"
proof (cases "seqIndex (heap (snd acc)) l a i")
  case (Inl e)
  then show ?thesis using seqIndex_fuel[of "heap (snd acc)" l a i]
    by (simp add: assertFile_elem_def halts_const)
next
  case (Inr x)
  obtain el ea where x: "x = (el, ea)" by (cases x)
  have "halts (\<lambda>m. case recur m (path @ ''['' @ showNat i @ '']'') el ea (snd acc) of
             Inl e \<Rightarrow> Inl e
           | Inr r \<Rightarrow> Inr (fst acc \<and> fst r, snd r))"
    by (rule halts_bind[OF assms]) (use Inr x in \<open>auto simp: halts_const\<close>)
  then show ?thesis using Inr x by (simp add: assertFile_elem_def)
qed

lemma assertFile_field_rel':
  "assertFile_field (assertFile n ev want opts) path want opts' typ a tf acc = Inr acc'
     \<Longrightarrow> accRel want acc acc'"
  by (erule assertFile_field_rel[rotated]) (rule assertFile_rel)

lemma assertFile_entry_rel':
  "assertFile_entry (assertFile n ev want opts) fuel ev' path l key acc = Inr acc'
     \<Longrightarrow> accRel want acc acc'"
  by (erule assertFile_entry_rel[rotated]) (rule assertFile_rel)

lemma assertFile_elem_rel':
  "assertFile_elem (assertFile n ev want opts) path l a i acc = Inr acc'
     \<Longrightarrow> accRel want acc acc'"
  by (erule assertFile_elem_rel[rotated]) (rule assertFile_rel)

lemma assertFile_halts_aux:
  assumes fin: "finite U"
  shows "\<forall>path l a s. p = (card (U - set (seen s)), rk l) \<longrightarrow> ranked rk (heap s)
           \<longrightarrow> ptrKeys (heap s) \<subseteq> U \<longrightarrow> halts (\<lambda>m. assertFile m ev want opts path l a s)"
proof (induction p rule: wf_induct_rule[OF wf_lex_prod[OF wf_less_than wf_less_than]])
  case (1 p)
  show ?case
  proof (intro allI impI)
    fix path l a and s :: state
    assume p: "p = (card (U - set (seen s)), rk l)"
      and rk: "ranked rk (heap s)" and ks: "ptrKeys (heap s) \<subseteq> U"
    have IH: "halts (\<lambda>m. assertFile m ev want opts path' l' a' s')"
      if "ranked rk (heap s')" "ptrKeys (heap s') \<subseteq> U"
        "card (U - set (seen s')) < card (U - set (seen s))
         \<or> (card (U - set (seen s')) \<le> card (U - set (seen s)) \<and> rk l' < rk l)"
      for path' l' a' s'
    proof -
      have "((card (U - set (seen s')), rk l'), p) \<in> less_than <*lex*> less_than"
        using that(3) p by auto
      from 1[OF this] that(1,2) show ?thesis by blast
    qed
    define I where "I = (\<lambda>acc :: bool \<times> state. heap (snd acc) = heap s
                              \<and> set (seen s) \<subseteq> set (seen (snd acc)))"
    have I0: "I (True, s)" by (simp add: I_def)
    have Ipost: "I acc'" if "I acc" "accRel want acc acc'" for acc acc'
      using that seenExt_subset[of "snd acc" "snd acc'"] by (auto simp: I_def accRel_def)
    have child: "halts (\<lambda>m. assertFile m ev want opts path' c a' (snd acc))"
      if "I acc" "rk c < rk l" for c a' acc path'
      using that IH[of "snd acc" c path' a'] card_unseen_le[OF fin, of "seen s" "seen (snd acc)"] rk ks
      by (simp add: I_def)
    show "halts (\<lambda>m. assertFile m ev want opts path l a s)"
    proof (cases "heap s l")
      case None
      show ?thesis
        by (rule halts_Suc[OF halts_const[of "Inl BadStore"]])
          (use None in \<open>auto simp: assertFile_none\<close>)
    next
      case (Some nd)
      show ?thesis
      proof (cases nd rule: node_walk_cases)
        case inert
        show ?thesis
          by (rule halts_Suc[OF halts_const[of "Inr (True, s)"]])
            (use Some inert in \<open>auto simp: assertFile_inert\<close>)
      next
        case (ptr t q)
        show ?thesis
        proof (cases "(t, q) \<in> set (seen s)")
          case True
          show ?thesis
            by (rule halts_Suc[OF halts_const[of "Inr (True, s)"]])
              (use Some ptr True in \<open>auto simp: assertFile_ptr\<close>)
        next
          case False
          have "(t, q) \<in> U" using ks Some ptr by (auto simp: ptrKeys_def)
          from card_unseen_less[OF fin this False]
          have "halts (\<lambda>m. assertFile m ev want opts path q True (s\<lparr>seen := (t, q) # seen s\<rparr>))"
            using rk ks by (intro IH) auto
          then show ?thesis
            by (rule halts_Suc) (use Some ptr False in \<open>auto simp: assertFile_ptr\<close>)
        qed
      next
        case (struct t fs pr)
        have "halts (\<lambda>m. forEach (assertFile_field (assertFile m ev want opts) path want opts t a)
                           fs (True, s))"
        proof (rule forEach_halts[where I = I, OF _ _ I0])
          fix x acc assume x: "x \<in> set fs" and i: "I acc"
          have "rk (snd x) < rk l" using ranked_child[OF rk Some] struct x by auto
          from child[OF i this]
          show "halts (\<lambda>m. assertFile_field (assertFile m ev want opts) path want opts t a x acc)"
            by (rule assertFile_field_halts)
        next
          fix x acc acc' m
          assume "I acc" "assertFile_field (assertFile m ev want opts) path want opts t a x acc = Inr acc'"
          then show "I acc'" using Ipost assertFile_field_rel' by blast
        qed
        then show ?thesis
          by (rule halts_Suc) (use Some struct in \<open>auto simp: assertFile_struct\<close>)
      next
        case (map t kvs)
        have "halts (\<lambda>m. forEach (assertFile_entry (assertFile m ev want opts) m ev path l)
                           (map fst kvs) (True, s))"
        proof (rule forEach_halts[where I = I, OF _ _ I0])
          fix k acc assume k: "k \<in> set (map fst kvs)" and i: "I acc"
          have rkk: "rk k < rk l" using ranked_child[OF rk Some] map k by auto
          have hp: "heap (snd acc) = heap s" using i by (simp add: I_def)
          show "halts (\<lambda>m. assertFile_entry (assertFile m ev want opts) m ev path l k acc)"
          proof (rule assertFile_entry_halts)
            show "halts (\<lambda>m. ifaceType m (heap (snd acc)) k)"
              using ifaceType_halts[OF rk] hp by simp
          next
            fix kt show "halts (\<lambda>m. assertFile m ev want opts (''('' @ kt @ '')'') k False (snd acc))"
              by (rule child[OF i rkk])
          next
            fix m kt r1 v pth
            assume r: "assertFile m ev want opts (''('' @ kt @ '')'') k False (snd acc) = Inr r1"
              and v: "mapIndex (heap (snd r1)) l k = Inr v"
            have "accRel want (True, snd acc) r1" using assertFile_rel[OF r] .
            then have "accRel want acc (fst acc \<and> fst r1, snd r1)"
              using accRel_join[of want "snd acc" r1 "fst acc"] by simp
            from Ipost[OF i this] have i1: "I r1" by (simp add: I_def)
            from mapIndex_child[OF v] obtain nd1 where "heap (snd r1) l = Some nd1" "v \<in> children nd1"
              by blast
            then have "rk v < rk l" using ranked_child[of rk "heap s" l nd1 v] i1 rk
              by (simp add: I_def)
            from child[OF i1 this] show "halts (\<lambda>j. assertFile j ev want opts pth v False (snd r1))" .
          qed
        next
          fix x acc acc' m
          assume "I acc" "assertFile_entry (assertFile m ev want opts) m ev path l x acc = Inr acc'"
          then show "I acc'" using Ipost assertFile_entry_rel' by blast
        qed
        then show ?thesis
          by (rule halts_Suc) (use Some map in \<open>auto simp: assertFile_map\<close>)
      next
        case (slice t es)
        have "halts (\<lambda>m. forEach (assertFile_elem (assertFile m ev want opts) path l a)
                           [0..<length es] (True, s))"
        proof (rule forEach_halts[where I = I, OF _ _ I0])
          fix i acc assume i: "I acc"
          show "halts (\<lambda>m. assertFile_elem (assertFile m ev want opts) path l a i acc)"
          proof (rule assertFile_elem_halts)
            fix el ea pth assume "seqIndex (heap (snd acc)) l a i = Inr (el, ea)"
            from seqIndex_child[OF this] obtain nd1 where "heap (snd acc) l = Some nd1"
              "el \<in> children nd1" by blast
            then have "rk el < rk l" using ranked_child[of rk "heap s" l nd1 el] i rk
              by (simp add: I_def)
            from child[OF i this] show "halts (\<lambda>m. assertFile m ev want opts pth el ea (snd acc))" .
          qed
        next
          fix x acc acc' m
          assume "I acc" "assertFile_elem (assertFile m ev want opts) path l a x acc = Inr acc'"
          then show "I acc'" using Ipost assertFile_elem_rel' by blast
        qed
        then show ?thesis
          by (rule halts_Suc) (use Some slice in \<open>auto simp: assertFile_slice\<close>)
      next
        case (array t es)
        have "halts (\<lambda>m. forEach (assertFile_elem (assertFile m ev want opts) path l a)
                           [0..<length es] (True, s))"
        proof (rule forEach_halts[where I = I, OF _ _ I0])
          fix i acc assume i: "I acc"
          show "halts (\<lambda>m. assertFile_elem (assertFile m ev want opts) path l a i acc)"
          proof (rule assertFile_elem_halts)
            fix el ea pth assume "seqIndex (heap (snd acc)) l a i = Inr (el, ea)"
            from seqIndex_child[OF this] obtain nd1 where "heap (snd acc) l = Some nd1"
              "el \<in> children nd1" by blast
            then have "rk el < rk l" using ranked_child[of rk "heap s" l nd1 el] i rk
              by (simp add: I_def)
            from child[OF i this] show "halts (\<lambda>m. assertFile m ev want opts pth el ea (snd acc))" .
          qed
        next
          fix x acc acc' m
          assume "I acc" "assertFile_elem (assertFile m ev want opts) path l a x acc = Inr acc'"
          then show "I acc'" using Ipost assertFile_elem_rel' by blast
        qed
        then show ?thesis
          by (rule halts_Suc) (use Some array in \<open>auto simp: assertFile_array\<close>)
      next
        case (iface t c)
        have rkc: "rk c < rk l" using ranked_child[OF rk Some] iface by simp
        have "halts (\<lambda>m. case ifaceType (Suc m) (heap s) l of
                 Inl e \<Rightarrow> Inl e
               | Inr ct \<Rightarrow> assertFile m ev want opts (path @ ''.('' @ ct @ '')'') c False s)"
        proof (rule halts_bind[OF halts_shift[OF ifaceType_halts[OF rk]]])
          fix m ct
          show "halts (\<lambda>k. assertFile k ev want opts (path @ ''.('' @ ct @ '')'') c False s)"
            using child[OF I0 rkc] by simp
        qed
        then show ?thesis
          by (rule halts_Suc) (use Some iface in \<open>auto simp: assertFile_iface\<close>)
      qed
    qed
  qed
qed

lemma assertFile_halts:
  assumes "finite (dom (heap s))" and "ranked rk (heap s)"
  shows "halts (\<lambda>m. assertFile m ev want opts path l a s)"
  using assertFile_halts_aux[OF finite_ptrKeys[OF assms(1)],
      where p = "(card (ptrKeys (heap s) - set (seen s)), rk l)" and rk = rk] assms(2)
  by blast


lemma forEach_fuel:
  assumes "\<And>x s. body x s \<noteq> Inl OutOfFuel"
  shows "forEach body xs s \<noteq> Inl OutOfFuel"
proof (induction xs arbitrary: s)
  case Nil
  show ?case by simp
next
  case (Cons x xs)
  show ?case using assms[of x s] Cons.IH by (cases "body x s") auto
qed

lemma setDirectory_string_fuel: "setDirectory_string ev dir l i s \<noteq> Inl OutOfFuel"
  by (auto simp: setDirectory_string_def split: option.splits node.splits)

lemma receiver_fuel: "receiver h l a nd \<noteq> Inl OutOfFuel"
  by (auto simp: receiver_def split: node.splits option.splits)

lemma setDirectory_field_halts:
  assumes "halts (\<lambda>m. recur m (snd tf) a s)"
  shows "halts (\<lambda>m. setDirectory_field (recur m) a tf s)"
  using assms by (cases "\<not> (a \<and> exported (fst tf))") (auto simp: setDirectory_field_def halts_const)

lemma setDirectory_field_post':
  "capWritesStrings ev \<Longrightarrow> setDirectory_field (setDirectory n ev dir) a tf s = Inr s'
     \<Longrightarrow> setDirectory_post ev dir s s'"
  by (erule setDirectory_field_post[rotated]) (rule setDirectory_post)

lemma setDirectory_entry_post:
  "capWritesStrings ev \<Longrightarrow> eachEntry (setDirectory n ev dir) l key s = Inr s'
     \<Longrightarrow> setDirectory_post ev dir s s'"
  by (erule eachEntry_rel[where R = "setDirectory_post ev dir", rotated 2])
    (auto intro: setDirectory_post_trans setDirectory_post)

lemma setDirectory_elem_post:
  "capWritesStrings ev \<Longrightarrow> eachElem (setDirectory n ev dir) l a i s = Inr s'
     \<Longrightarrow> setDirectory_post ev dir s s'"
  by (erule eachElem_rel[where R = "setDirectory_post ev dir", rotated])
    (rule setDirectory_post)

lemma setDirectory_post_inv:
  fixes s s' :: state
  assumes "setDirectory_post ev dir s s'" and "ranked rk (heap s)" and "ptrKeys (heap s) \<subseteq> U"
    and "set ks \<subseteq> set (seen s)"
  shows "ranked rk (heap s') \<and> ptrKeys (heap s') \<subseteq> U \<and> set ks \<subseteq> set (seen s')"
  using assms ranked_shapeEq[of rk "heap s" "heap s'"] ptrKeys_shapeEq[of "heap s" "heap s'"]
    seenExt_subset[of s s']
  by (auto simp: setDirectory_post_def)

lemma setDirectory_halts_aux:
  assumes fin: "finite U" and cap: "capWritesStrings ev"
  shows "\<forall>l a s. p = (card (U - set (seen s)), rk l) \<longrightarrow> ranked rk (heap s)
           \<longrightarrow> ptrKeys (heap s) \<subseteq> U \<longrightarrow> halts (\<lambda>m. setDirectory m ev dir l a s)"
proof (induction p rule: wf_induct_rule[OF wf_lex_prod[OF wf_less_than wf_less_than]])
  case (1 p)
  show ?case
  proof (intro allI impI)
    fix l a and s :: state
    assume p: "p = (card (U - set (seen s)), rk l)"
      and rk: "ranked rk (heap s)" and ks: "ptrKeys (heap s) \<subseteq> U"
    have IH: "halts (\<lambda>m. setDirectory m ev dir l' a' s')"
      if "ranked rk (heap s')" "ptrKeys (heap s') \<subseteq> U"
        "card (U - set (seen s')) < card (U - set (seen s))
         \<or> (card (U - set (seen s')) \<le> card (U - set (seen s)) \<and> rk l' < rk l)"
      for l' a' s'
    proof -
      have "((card (U - set (seen s')), rk l'), p) \<in> less_than <*lex*> less_than"
        using that(3) p by auto
      from 1[OF this] that(1,2) show ?thesis by blast
    qed
    define I where "I = (\<lambda>s'::state. ranked rk (heap s') \<and> ptrKeys (heap s') \<subseteq> U
                              \<and> set (seen s) \<subseteq> set (seen s'))"
    have Ipost: "I s''" if "I s'" "setDirectory_post ev dir s' s''" for s' s''
      using that setDirectory_post_inv[of ev dir s' s'' rk U "seen s"] by (simp add: I_def)
    have child: "halts (\<lambda>m. setDirectory m ev dir c a' s')" if "I s'" "rk c < rk l" for c a' s'
      using that IH[of s' c a'] card_unseen_le[OF fin, of "seen s" "seen s'"] by (simp add: I_def)
    show "halts (\<lambda>m. setDirectory m ev dir l a s)"
    proof (cases "heap s l")
      case None
      show ?thesis
        by (rule halts_Suc[OF halts_const[of "Inl BadStore"]])
          (use None in \<open>auto simp: setDirectory_none\<close>)
    next
      case (Some nd)
      show ?thesis
      proof (cases "isNil nd")
        case True
        show ?thesis
          by (rule halts_Suc[OF halts_const[of "Inr s"]])
            (use Some True in \<open>auto simp: setDirectory_nil\<close>)
      next
        case nonnil: False
        show ?thesis
        proof (cases "receiver (heap s) l a nd")
          case (Inl e)
          show ?thesis
            by (rule halts_Suc[OF halts_const[of "Inl e"]])
              (use Some nonnil Inl receiver_fuel[of "heap s" l a nd] in
                \<open>auto simp: setDirectory_noreceiver\<close>)
        next
          case (Inr r)
          define s1 where "s1 = callSetDirectory ev dir r s"
          note unf = setDirectory_called[OF Some nonnil Inr, of _ ev dir, folded s1_def]
          have I1: "I s1"
            using callSetDirectory_post[OF cap, of dir s r] rk ks
              setDirectory_post_inv[of ev dir s s1 rk U "seen s"]
            by (simp add: I_def s1_def)
          show ?thesis
          proof (cases "heap s1 l")
            case None
            show ?thesis
              by (rule halts_Suc[OF halts_const[of "Inl BadStore"]]) (use None unf in auto)
          next
            case nd1: (Some nd1)
            have rk1: "ranked rk (heap s1)" using I1 by (simp add: I_def)
            show ?thesis
            proof (cases nd1)
              case (NPtr t p)
              show ?thesis
              proof (cases p)
                case None
                show ?thesis
                  by (rule halts_Suc[OF halts_const[of "Inl Panic"]]) (use nd1 NPtr None unf in auto)
              next
                case (Some q)
                show ?thesis
                proof (cases "(t, q) \<in> set (seen s1)")
                  case True
                  show ?thesis
                    by (rule halts_Suc[OF halts_const[of "Inr s1"]])
                      (use nd1 NPtr Some True unf in auto)
                next
                  case False
                  have "(t, q) \<in> U" using I1 nd1 NPtr Some by (auto simp: I_def ptrKeys_def)
                  from card_unseen_less[OF fin this False]
                  have "halts (\<lambda>m. setDirectory m ev dir q True (s1\<lparr>seen := (t, q) # seen s1\<rparr>))"
                    using I1 by (intro IH) (auto simp: I_def s1_def)
                  then show ?thesis
                    by (rule halts_Suc) (use nd1 NPtr Some False unf in auto)
                qed
              qed
            next
              case (NStruct t fs pr)
              have "halts (\<lambda>m. forEach (setDirectory_field (setDirectory m ev dir) a) fs s1)"
              proof (rule forEach_halts[where I = I, OF _ _ I1])
                fix x s' assume x: "x \<in> set fs" and i: "I s'"
                have "rk (snd x) < rk l" using ranked_child[OF rk1 nd1] NStruct x by auto
                from child[OF i this]
                show "halts (\<lambda>m. setDirectory_field (setDirectory m ev dir) a x s')"
                  by (rule setDirectory_field_halts)
              next
                fix x s' s'' m
                assume "I s'" "setDirectory_field (setDirectory m ev dir) a x s' = Inr s''"
                then show "I s''" using Ipost setDirectory_field_post'[OF cap] by blast
              qed
              then show ?thesis by (rule halts_Suc) (use nd1 NStruct unf in auto)
            next
              case (NMap t m)
              have "halts (\<lambda>j. forEach (eachEntry (setDirectory j ev dir) l) (mapKeys nd1) s1)"
              proof (rule forEach_halts[where I = I, OF _ _ I1])
                fix k s' assume k: "k \<in> set (mapKeys nd1)" and i: "I s'"
                have rkk: "rk k < rk l" using ranked_child[OF rk1 nd1] NMap k
                  by (cases m) (auto simp: mapKeys_def)
                show "halts (\<lambda>j. eachEntry (setDirectory j ev dir) l k s')"
                proof (rule eachEntry_halts)
                  show "halts (\<lambda>j. setDirectory j ev dir k False s')" by (rule child[OF i rkk])
                next
                  fix j s2 v
                  assume r: "setDirectory j ev dir k False s' = Inr s2"
                    and v: "mapIndex (heap s2) l k = Inr v"
                  have i2: "I s2" using Ipost[OF i setDirectory_post[OF cap r]] .
                  from mapIndex_child[OF v] obtain nd2 where "heap s2 l = Some nd2" "v \<in> children nd2"
                    by blast
                  then have "rk v < rk l" using ranked_child[of rk "heap s2" l nd2 v] i2
                    by (simp add: I_def)
                  from child[OF i2 this] show "halts (\<lambda>j. setDirectory j ev dir v False s2)" .
                qed
              next
                fix x s' s'' j
                assume "I s'" "eachEntry (setDirectory j ev dir) l x s' = Inr s''"
                then show "I s''" using Ipost setDirectory_entry_post[OF cap] by blast
              qed
              then show ?thesis by (rule halts_Suc) (use nd1 NMap unf in auto)
            next
              case (NSlice t es)
              have "halts (\<lambda>m. forEach (eachElem (setDirectory m ev dir) l a) [0..<seqLen nd1] s1)"
              proof (rule forEach_halts[where I = I, OF _ _ I1])
                fix i s' assume i: "I s'"
                show "halts (\<lambda>m. eachElem (setDirectory m ev dir) l a i s')"
                proof (rule eachElem_halts)
                  fix el ea assume "seqIndex (heap s') l a i = Inr (el, ea)"
                  from seqIndex_child[OF this] obtain nd2 where "heap s' l = Some nd2"
                    "el \<in> children nd2" by blast
                  then have "rk el < rk l" using ranked_child[of rk "heap s'" l nd2 el] i
                    by (simp add: I_def)
                  from child[OF i this] show "halts (\<lambda>m. setDirectory m ev dir el ea s')" .
                qed
              next
                fix x s' s'' m
                assume "I s'" "eachElem (setDirectory m ev dir) l a x s' = Inr s''"
                then show "I s''" using Ipost setDirectory_elem_post[OF cap] by blast
              qed
              then show ?thesis by (rule halts_Suc) (use nd1 NSlice unf in auto)
            next
              case (NArray t es)
              have "halts (\<lambda>m. forEach (eachElem (setDirectory m ev dir) l a) [0..<seqLen nd1] s1)"
              proof (rule forEach_halts[where I = I, OF _ _ I1])
                fix i s' assume i: "I s'"
                show "halts (\<lambda>m. eachElem (setDirectory m ev dir) l a i s')"
                proof (rule eachElem_halts)
                  fix el ea assume "seqIndex (heap s') l a i = Inr (el, ea)"
                  from seqIndex_child[OF this] obtain nd2 where "heap s' l = Some nd2"
                    "el \<in> children nd2" by blast
                  then have "rk el < rk l" using ranked_child[of rk "heap s'" l nd2 el] i
                    by (simp add: I_def)
                  from child[OF i this] show "halts (\<lambda>m. setDirectory m ev dir el ea s')" .
                qed
              next
                fix x s' s'' m
                assume "I s'" "eachElem (setDirectory m ev dir) l a x s' = Inr s''"
                then show "I s''" using Ipost setDirectory_elem_post[OF cap] by blast
              qed
              then show ?thesis by (rule halts_Suc) (use nd1 NArray unf in auto)
            next
              case (NStrings t e xs)
              have "forEach (setDirectory_string ev dir l) [0..<length (stringsOf nd1)] s1
                      \<noteq> Inl OutOfFuel"
                by (rule forEach_fuel) (rule setDirectory_string_fuel)
              from halts_const[OF this] show ?thesis
                by (rule halts_Suc) (use nd1 NStrings unf in auto)
            next
              case (NIface t b)
              show ?thesis
              proof (cases b)
                case None
                show ?thesis
                  by (rule halts_Suc[OF halts_const[of "Inl Panic"]]) (use nd1 NIface None unf in auto)
              next
                case (Some c)
                have "rk c < rk l" using ranked_child[OF rk1 nd1] NIface Some by simp
                from child[OF I1 this] show ?thesis
                  by (rule halts_Suc) (use nd1 NIface Some unf in auto)
              qed
            next
              case (NString t x)
              show ?thesis
                by (rule halts_Suc[OF halts_const[of "Inr s1"]]) (use nd1 NString unf in auto)
            next
              case (NScalar t)
              show ?thesis
                by (rule halts_Suc[OF halts_const[of "Inr s1"]]) (use nd1 NScalar unf in auto)
            next
              case (NOpaque t x)
              show ?thesis
                by (rule halts_Suc[OF halts_const[of "Inr s1"]]) (use nd1 NOpaque unf in auto)
            qed
          qed
        qed
      qed
    qed
  qed
qed

lemma setDirectory_halts:
  assumes "finite (dom (heap s))" and "ranked rk (heap s)" and "capWritesStrings ev"
  shows "halts (\<lambda>m. setDirectory m ev dir l a s)"
  using setDirectory_halts_aux[OF finite_ptrKeys[OF assms(1)] assms(3),
      where p = "(card (ptrKeys (heap s) - set (seen s)), rk l)" and rk = rk] assms(2)
  by blast


section \<open>Every value the walk can reach is settled\<close>

lemma grows_refl [simp]: "grows s s"
  by (simp add: grows_def)

lemma grows_trans: "grows s s' \<Longrightarrow> grows s' s'' \<Longrightarrow> grows s s''"
  unfolding grows_def by blast

lemma ptrSeen_mono: "ptrSeen h s y \<Longrightarrow> grows s s' \<Longrightarrow> ptrSeen h s' y"
  unfolding ptrSeen_def grows_def by blast

lemma fieldReported_mono:
  assumes "fieldReported opts h w s t tf" and "grows s s'"
  shows "fieldReported opts h w s' t tf"
proof -
  from assms(2) have sub: "set (reported s) \<subseteq> set (reported s')" by (simp add: grows_def)
  have ex: "\<exists>path. (f path, g, w) \<in> set (reported s')"
    if "\<exists>path. (f path, g, w) \<in> set (reported s)" for f :: "string \<Rightarrow> string" and g
    using that sub by blast
  show ?thesis
    unfolding fieldReported_def
  proof (intro allI impI conjI)
    fix fnode
    assume pre: "h (snd tf) = Some fnode"
    note old = assms(1)[unfolded fieldReported_def, rule_format, OF pre]
    {
      assume "is_stringTyp fnode \<and> (hasSuffix (fst tf) ''File'' \<or> incl opts (t, fst tf))
            \<and> stringOf fnode \<noteq> w"
      with old have "\<exists>path. (path @ ''.'' @ fst tf, stringOf fnode, w) \<in> set (reported s)" by blast
      then show "\<exists>path. (path @ ''.'' @ fst tf, stringOf fnode, w) \<in> set (reported s')"
        by (rule ex[of "\<lambda>path. path @ ''.'' @ fst tf"])
    }
    {
      fix j
      assume "is_stringSliceTyp fnode \<and> (hasSuffix (fst tf) ''Files'' \<or> incl opts (t, fst tf))"
        and "j < length (stringsOf fnode)" and "stringsOf fnode ! j \<noteq> w"
      with old have "\<exists>path. (path @ ''.'' @ fst tf @ ''['' @ showNat j @ '']'', stringsOf fnode ! j, w)
                  \<in> set (reported s)" by blast
      then show "\<exists>path. (path @ ''.'' @ fst tf @ ''['' @ showNat j @ '']'', stringsOf fnode ! j, w)
                  \<in> set (reported s')"
        by (rule ex[of "\<lambda>path. path @ ''.'' @ fst tf @ ''['' @ showNat j @ '']''"])
    }
  qed
qed

lemma fileReported_mono:
  "fileReported opts h w s y \<Longrightarrow> grows s s' \<Longrightarrow> fileReported opts h w s' y"
  unfolding fileReported_def by (blast intro: fieldReported_mono)

lemma settled_mono: "settled opts h want s y \<Longrightarrow> grows s s' \<Longrightarrow> settled opts h want s' y"
  unfolding settled_def by (cases want) (auto intro: ptrSeen_mono fileReported_mono)

lemma covered_mono:
  "covered W opts h want s x \<Longrightarrow> grows s s' \<Longrightarrow> covered W opts h want s' x"
  unfolding covered_def by (blast intro: settled_mono)

lemma covStep_refl [simp]: "covStep W opts h want s s"
  by (simp add: covStep_def)

lemma covStep_grows: "covStep W opts h want s s' \<Longrightarrow> grows s s'"
  by (simp add: covStep_def)

lemma covStep_trans:
  assumes 1: "covStep W opts h want s s'" and 2: "covStep W opts h want s' s''"
  shows "covStep W opts h want s s''"
  unfolding covStep_def
proof (intro conjI allI impI)
  show "grows s s''" using 1 2 by (auto simp: covStep_def intro: grows_trans)
next
  fix t q assume in2: "(t, q) \<in> set (seen s'')" and nin0: "(t, q) \<notin> set (seen s)"
  show "covered W opts h want s'' (q, True)"
  proof (cases "(t, q) \<in> set (seen s')")
    case True
    then have "covered W opts h want s' (q, True)" using 1 nin0 by (simp add: covStep_def)
    then show ?thesis using covStep_grows[OF 2] by (rule covered_mono)
  next
    case False
    then show ?thesis using 2 in2 by (simp add: covStep_def)
  qed
qed

lemma covered_step:
  "covered W opts h want s x \<Longrightarrow> covStep W opts h want s s' \<Longrightarrow> covered W opts h want s' x"
  by (erule covered_mono) (rule covStep_grows)

lemma edge_ptr_only:
  "edge W h (l, a) y \<Longrightarrow> h l = Some (NPtr t p) \<Longrightarrow> p = Some (fst y) \<and> y = (fst y, True)"
  by (erule edge.cases) auto

lemma no_inner_from_ptr: "h (fst x) = Some (NPtr t p) \<Longrightarrow> \<not> inner W h x y"
  by (simp add: inner_def)

lemma no_edge_from_inert: "h l = Some nd \<Longrightarrow> inert nd \<Longrightarrow> \<not> edge W h (l, a) y"
  by (auto elim!: edge.cases)

lemma no_edge_from_none: "h l = None \<Longrightarrow> \<not> edge W h (l, a) y"
  by (auto elim!: edge.cases)

text \<open>A value is covered when it is settled and all the values one inner step away are
  covered.\<close>

lemma covered_by_children:
  assumes "settled opts h want s x"
    and "\<And>y. inner W h x y \<Longrightarrow> covered W opts h want s y"
  shows "covered W opts h want s x"
  unfolding covered_def
proof (intro allI impI)
  fix y assume r: "(inner W h)\<^sup>*\<^sup>* x y"
  from r show "settled opts h want s y"
  proof (cases rule: converse_rtranclpE)
    case base
    then show ?thesis using assms(1) by simp
  next
    case (step z)
    from assms(2)[OF step(1)] step(2) show ?thesis unfolding covered_def by blast
  qed
qed

lemma settled_ptr:
  "h l = Some (NPtr t (Some q)) \<Longrightarrow> (t, q) \<in> set (seen s) \<Longrightarrow> settled opts h want s (l, a)"
  by (cases want) (auto simp: settled_def ptrSeen_def fileReported_def)

lemma settled_other:
  assumes "\<And>t q. h l \<noteq> Some (NPtr t (Some q))" and "\<And>t fs pr. h l \<noteq> Some (NStruct t fs pr)"
  shows "settled opts h want s (l, a)"
  using assms by (cases want) (auto simp: settled_def ptrSeen_def fileReported_def)

lemma settled_struct:
  assumes "h l = Some (NStruct t fs pr)" and "\<And>w. want = Some w \<Longrightarrow> fileReported opts h w s (l, a)"
  shows "settled opts h want s (l, a)"
  using assms by (cases want) (auto simp: settled_def ptrSeen_def)

lemma covered_ptr:
  assumes "h l = Some (NPtr t (Some q))" and "(t, q) \<in> set (seen s)"
  shows "covered W opts h want s (l, a)"
proof (rule covered_by_children)
  show "settled opts h want s (l, a)" using assms by (rule settled_ptr)
  show "covered W opts h want s y" if "inner W h (l, a) y" for y
    using that no_inner_from_ptr[of h "(l, a)" t "Some q" W y] assms(1) by simp
qed

lemma covered_self: "covered W opts h want s x \<Longrightarrow> settled opts h want s x"
  unfolding covered_def by blast

lemma covered_inner:
  "covered W opts h want s x \<Longrightarrow> inner W h x y \<Longrightarrow> covered W opts h want s y"
  unfolding covered_def by (meson converse_rtranclp_into_rtranclp)

text \<open>From a covered start, with what every key seen points to covered as well, all
  that can be reached is covered.\<close>

lemma covered_reach:
  assumes start: "covered W opts h want s x"
    and closed: "\<And>t q. (t, q) \<in> set (seen s) \<Longrightarrow> covered W opts h want s (q, True)"
    and reach: "(edge W h)\<^sup>*\<^sup>* x y"
  shows "covered W opts h want s y"
  using reach
proof (induction rule: rtranclp_induct)
  case base
  show ?case by (rule start)
next
  case (step y z)
  show ?case
  proof (cases "\<exists>t p. h (fst y) = Some (NPtr t p)")
    case True
    then obtain t p where p: "h (fst y) = Some (NPtr t p)" by blast
    from edge_ptr_only[of W h "fst y" "snd y" z t p] step(2) p
    have z: "p = Some (fst z)" "z = (fst z, True)" by auto
    from covered_self[OF step.IH] p z have "(t, fst z) \<in> set (seen s)"
      by (simp add: settled_def ptrSeen_def)
    then have "covered W opts h want s (fst z, True)" by (rule closed)
    with z show ?thesis by simp
  next
    case False
    then have "inner W h y z" using step(2) by (simp add: inner_def)
    with step.IH show ?thesis by (rule covered_inner)
  qed
qed

lemma forEach_collect:
  assumes refl: "\<And>s. R s s" and trans: "\<And>s s' s''. R s s' \<Longrightarrow> R s' s'' \<Longrightarrow> R s s''"
    and mono: "\<And>x s s'. Q x s \<Longrightarrow> R s s' \<Longrightarrow> Q x s'"
    and body: "\<And>x s s'. x \<in> set xs \<Longrightarrow> R s0 s \<Longrightarrow> body x s = Inr s' \<Longrightarrow> R s s' \<and> Q x s'"
    and start: "R s0 s" and run: "forEach body xs s = Inr s'"
  shows "R s s' \<and> (\<forall>x \<in> set xs. Q x s')"
  using body start run
proof (induction xs arbitrary: s)
  case Nil
  from Nil(3) have "s' = s" by simp
  then show ?case using refl by simp
next
  case (Cons x xs)
  obtain s1 where 1: "body x s = Inr s1" and 2: "forEach body xs s1 = Inr s'"
  proof (cases "body x s")
    case (Inl e)
    then show ?thesis using Cons.prems(3) by simp
  next
    case (Inr s1)
    then show ?thesis using Cons.prems(3) that by simp
  qed
  have "x \<in> set (x # xs)" by simp
  from Cons.prems(1)[OF this Cons.prems(2) 1] have b: "R s s1" "Q x s1"
    by (rule conjunct1, rule conjunct2)
  have r1: "R s0 s1" by (rule trans[OF Cons.prems(2) b(1)])
  have both: "R s1 s' \<and> (\<forall>y \<in> set xs. Q y s')"
  proof (rule Cons.IH[OF _ r1 2])
    fix y s s' assume y: "y \<in> set xs" and r: "R s0 s" and bd: "body y s = Inr s'"
    from y have "y \<in> set (x # xs)" by simp
    from Cons.prems(1)[OF this r bd] show "R s s' \<and> Q y s'" .
  qed
  then have rest: "R s1 s'" "\<forall>y \<in> set xs. Q y s'"
    by (rule conjunct1, rule conjunct2)
  have qx: "Q x s'" by (rule mono[OF b(2) rest(1)])
  have rs: "R s s'" by (rule trans[OF b(1) rest(1)])
  have "\<forall>y \<in> set (x # xs). Q y s'"
  proof
    fix y assume "y \<in> set (x # xs)"
    then have "y = x \<or> y \<in> set xs" by simp
    then show "Q y s'" using qx rest(2) by blast
  qed
  with rs show ?case by (rule conjI)
qed

text \<open>The values one inner step from a node of each kind.\<close>

lemma inner_struct:
  assumes "h l = Some (NStruct t fs pr)" and "inner W h (l, a) y"
  shows "\<exists>name vf fnode. (name, vf) \<in> set fs \<and> a \<and> exported name \<and> h vf = Some fnode
           \<and> W t name fnode \<and> y = (vf, True)"
proof -
  from assms(2) have "edge W h (l, a) y" by (simp add: inner_def)
  then show ?thesis
  proof (cases rule: edge.cases)
    case (field t' fs' pr' name vf fnode)
    then have "(name, vf) \<in> set fs" "W t name fnode" using assms(1) by simp_all
    with field show ?thesis by (intro exI[of _ name] exI[of _ vf] exI[of _ fnode]) simp
  qed (use assms(1) in simp_all)
qed

lemma inner_map:
  assumes "h l = Some (NMap t (Some kvs))" and "inner W h (l, a) y"
  shows "\<exists>k \<in> set (map fst kvs). y = (k, False) \<or> (\<exists>v. map_of kvs k = Some v \<and> y = (v, False))"
proof -
  from assms(2) have "edge W h (l, a) y" by (simp add: inner_def)
  then have "(\<exists>k v. (k, v) \<in> set kvs \<and> y = (k, False))
      \<or> (\<exists>k v. map_of kvs k = Some v \<and> y = (v, False))"
    using assms(1) by (cases rule: edge.cases) auto
  then show ?thesis
  proof
    assume "\<exists>k v. (k, v) \<in> set kvs \<and> y = (k, False)"
    then obtain k v where kv: "(k, v) \<in> set kvs" "y = (k, False)" by blast
    from kv(1) have "k \<in> set (map fst kvs)" by (simp add: rev_image_eqI)
    with kv(2) show ?thesis by blast
  next
    assume "\<exists>k v. map_of kvs k = Some v \<and> y = (v, False)"
    then obtain k v where kv: "map_of kvs k = Some v" "y = (v, False)" by blast
    from kv(1) have "(k, v) \<in> set kvs" by (rule map_of_SomeD)
    then have "k \<in> set (map fst kvs)" by (simp add: rev_image_eqI)
    with kv show ?thesis by blast
  qed
qed

lemma inner_slice:
  assumes "h l = Some (NSlice t (Some es))" and "inner W h (l, a) y"
  shows "\<exists>i < length es. y = (es ! i, True)"
  using assms(2) assms(1) unfolding inner_def by (auto elim!: edge.cases)

lemma inner_array:
  assumes "h l = Some (NArray t es)" and "inner W h (l, a) y"
  shows "\<exists>i < length es. y = (es ! i, a)"
  using assms(2) assms(1) unfolding inner_def by (auto elim!: edge.cases)

lemma inner_iface:
  assumes "h l = Some (NIface t (Some c))" and "inner W h (l, a) y"
  shows "y = (c, False)"
  using assms(2) assms(1) unfolding inner_def by (auto elim!: edge.cases)

lemma covered_inert:
  assumes "h l = Some nd" and "inert nd"
  shows "covered W opts h want s (l, a)"
proof (rule covered_by_children)
  show "settled opts h want s (l, a)"
    by (rule settled_other) (use assms in auto)
  show "covered W opts h want s y" if "inner W h (l, a) y" for y
    using that no_edge_from_inert[of h l nd W a y] assms by (simp add: inner_def)
qed

lemma shapeEq_back:
  assumes "shapeEq h0 h" and "h l = Some nd"
  shows "\<exists>nd0. h0 l = Some nd0 \<and> sameShape nd0 nd"
  using assms by (auto simp: shapeEq_def dest!: spec[of _ l] elim!: option.rel_cases)

lemma shapeEq_back_eq:
  assumes "shapeEq h0 h" and "h l = Some nd" and "\<not> inert nd"
  shows "h0 l = Some nd"
proof -
  from shapeEq_back[OF assms(1,2)] obtain nd0 where "h0 l = Some nd0" "sameShape nd0 nd" by blast
  then show ?thesis using sameShape_cases[of nd0 nd] assms(3) by auto
qed

lemma shapeEq_back_inert:
  assumes "shapeEq h0 h" and "h l = Some nd" and "inert nd"
  shows "\<exists>nd0. h0 l = Some nd0 \<and> inert nd0"
proof -
  from shapeEq_back[OF assms(1,2)] obtain nd0 where "h0 l = Some nd0" "sameShape nd0 nd" by blast
  then show ?thesis using sameShape_cases[of nd0 nd] assms(3) by auto
qed

lemma covStep_push:
  assumes step: "covStep W opts h want (s\<lparr>seen := (t, q) # seen s\<rparr>) s'"
    and cov: "covered W opts h want s' (q, True)"
  shows "covStep W opts h want s s'"
  using assms unfolding covStep_def grows_def by auto

lemma covStep_same:
  "seen s' = seen s \<Longrightarrow> set (reported s) \<subseteq> set (reported s') \<Longrightarrow> covStep W opts h want s s'"
  by (simp add: covStep_def grows_def)


lemma walkStep_refl [simp]: "walkStep W opts h want s s"
  by (simp add: walkStep_def)

lemma walkStep_trans:
  "walkStep W opts h want s s' \<Longrightarrow> walkStep W opts h want s' s'' \<Longrightarrow> walkStep W opts h want s s''"
  unfolding walkStep_def by (auto intro: covStep_trans)

lemma walkStep_covered:
  "covered W opts h want s x \<Longrightarrow> walkStep W opts h want s s' \<Longrightarrow> covered W opts h want s' x"
  unfolding walkStep_def by (auto intro: covered_step)

lemma walkStep_shape:
  "walkStep W opts h want s s' \<Longrightarrow> shapeEq h (heap s) \<Longrightarrow> shapeEq h (heap s')"
  by (simp add: walkStep_def)

lemma shapeEq_fwd_eq:
  assumes "shapeEq h h'" and "h l = Some nd" and "\<not> inert nd"
  shows "h' l = Some nd"
proof -
  from shapeEq_sameShape[OF assms(1,2)] obtain nd' where "h' l = Some nd'" "sameShape nd nd'"
    by blast
  then show ?thesis using sameShape_cases[of nd nd'] assms(3) by auto
qed

text \<open>The loops over a map and over a slice or array, for any walk.\<close>

lemma eachEntry_cover:
  assumes rec: "\<And>l a s s'. shapeEq h (heap s) \<Longrightarrow> recur l a s = Inr s' \<Longrightarrow>
                  walkStep W opts h want s s' \<and> covered W opts h want s' (l, a)"
    and inv: "shapeEq h (heap s)" and nd: "h l = Some (NMap t (Some kvs))"
    and run: "eachEntry recur l k s = Inr s'"
  shows "walkStep W opts h want s s'
       \<and> (covered W opts h want s' (k, False)
          \<and> (\<forall>v. map_of kvs k = Some v \<longrightarrow> covered W opts h want s' (v, False)))"
proof -
  from run obtain s1 v where 1: "recur k False s = Inr s1"
    and v: "mapIndex (heap s1) l k = Inr v" and 2: "recur v False s1 = Inr s'"
    by (auto simp: eachEntry_def split: sum.splits)
  from rec[OF inv 1] have w1: "walkStep W opts h want s s1"
    and c1: "covered W opts h want s1 (k, False)" by simp_all
  have inv1: "shapeEq h (heap s1)" by (rule walkStep_shape[OF w1 inv])
  from rec[OF inv1 2] have w2: "walkStep W opts h want s1 s'"
    and c2: "covered W opts h want s' (v, False)" by simp_all
  have "heap s1 l = Some (NMap t (Some kvs))" by (rule shapeEq_fwd_eq[OF inv1 nd]) simp
  with v have "map_of kvs k = Some v" by (auto simp: mapIndex_def split: option.splits)
  then show ?thesis
    using walkStep_trans[OF w1 w2] walkStep_covered[OF c1 w2] c2 by simp
qed

lemma eachElem_cover:
  assumes rec: "\<And>l a s s'. shapeEq h (heap s) \<Longrightarrow> recur l a s = Inr s' \<Longrightarrow>
                  walkStep W opts h want s s' \<and> covered W opts h want s' (l, a)"
    and inv: "shapeEq h (heap s)"
    and nd: "h l = Some (NSlice t (Some es)) \<and> a' = True \<or> h l = Some (NArray t es) \<and> a' = a"
    and i: "i < length es"
    and run: "eachElem recur l a i s = Inr s'"
  shows "walkStep W opts h want s s' \<and> covered W opts h want s' (es ! i, a')"
proof -
  from nd have "heap s l = Some (NSlice t (Some es)) \<and> a' = True
      \<or> heap s l = Some (NArray t es) \<and> a' = a"
    using shapeEq_fwd_eq[OF inv, of l] by auto
  then have "seqIndex (heap s) l a i = Inr (es ! i, a')" using i by (auto simp: seqIndex_def)
  with run have "recur (es ! i) a' s = Inr s'" by (simp add: eachElem_def)
  from rec[OF inv this] show ?thesis .
qed

section \<open>\<open>setFile\<close> settles every value it can reach\<close>

lemma clearSibling_seen:
  "clearSibling fs name s = Inr s' \<Longrightarrow> seen s' = seen s \<and> reported s' = reported s"
  by (auto simp: clearSibling_def split: option.splits node.splits if_splits)

lemma setFile_post_walkStep:
  "setFile_post s s' \<Longrightarrow> covStep W opts h want s s' \<Longrightarrow> walkStep W opts h want s s'"
  unfolding walkStep_def setFile_post_def by (auto intro: shapeEq_trans)

lemma setFile_field_cover:
  assumes rec: "\<And>l a s s'. shapeEq h (heap s) \<Longrightarrow> setFile n file opts l a s = Inr s' \<Longrightarrow>
                  walkStep (fileWalked opts) opts h None s s'
                  \<and> covered (fileWalked opts) opts h None s' (l, a)"
    and inv: "shapeEq h (heap s)"
    and run: "setFile_field (setFile n file opts) file opts typ fs a tf s = Inr s'"
  shows "walkStep (fileWalked opts) opts h None s s'
       \<and> (a \<and> exported (fst tf) \<and> (\<exists>fnode. h (snd tf) = Some fnode
              \<and> fileWalked opts typ (fst tf) fnode) \<longrightarrow>
           covered (fileWalked opts) opts h None s' (snd tf, True))"
proof -
  obtain name vf where tf: "tf = (name, vf)" by (cases tf)
  have post: "setFile_post s s'" by (rule setFile_field_post'[OF run])
  show ?thesis
  proof (cases "\<not> (a \<and> exported name) \<or> excl opts (typ, name)")
    case True
    then have "s' = s" using run tf by (simp add: setFile_field_def)
    then show ?thesis using True tf by (auto simp: fileWalked_def)
  next
    case False
    then obtain fnode where fn: "heap s vf = Some fnode"
      using run tf by (auto simp: setFile_field_def Let_def split: option.splits)
    from shapeEq_back[OF inv fn] obtain fnode0 where fn0: "h vf = Some fnode0"
      and sh: "sameShape fnode0 fnode" by blast
    have cl: "is_stringTyp fnode0 = is_stringTyp fnode"
      "is_stringSliceTyp fnode0 = is_stringSliceTyp fnode"
      using sameShape_is_stringTyp[OF sh] sameShape_is_stringSliceTyp[OF sh] by simp_all
    consider (single) "is_stringTyp fnode \<and> (hasSuffix name ''File'' \<or> incl opts (typ, name))"
      | (plural) "\<not> (is_stringTyp fnode \<and> (hasSuffix name ''File'' \<or> incl opts (typ, name)))"
          "is_stringSliceTyp fnode \<and> (hasSuffix name ''Files'' \<or> incl opts (typ, name))"
      | (other) "\<not> (is_stringTyp fnode \<and> (hasSuffix name ''File'' \<or> incl opts (typ, name)))"
          "\<not> (is_stringSliceTyp fnode \<and> (hasSuffix name ''Files'' \<or> incl opts (typ, name)))"
      by blast
    then show ?thesis
    proof cases
      case single
      then obtain s1 where c: "clearSibling fs (trimSuffix name ''File'') s = Inr s1"
        and s': "s' = s1\<lparr>heap := (heap s1)(vf \<mapsto> NString stringTyp file)\<rparr>"
        using run tf False fn by (auto simp: setFile_field_def split: sum.splits)
      from clearSibling_seen[OF c] s' have "seen s' = seen s" "reported s' = reported s" by simp_all
      then have "covStep (fileWalked opts) opts h None s s'" by (simp add: covStep_same)
      then have "walkStep (fileWalked opts) opts h None s s'" by (rule setFile_post_walkStep[OF post])
      moreover have "\<not> fileWalked opts typ name fnode0" using single cl by (simp add: fileWalked_def)
      ultimately show ?thesis using tf fn0 by simp
    next
      case plural
      then have s': "s' = s\<lparr>heap := (heap s)(vf \<mapsto> NStrings stringSliceTyp stringTyp (Some [file]))\<rparr>"
        using run tf False fn by (auto simp: setFile_field_def)
      then have "covStep (fileWalked opts) opts h None s s'" by (simp add: covStep_same)
      then have "walkStep (fileWalked opts) opts h None s s'" by (rule setFile_post_walkStep[OF post])
      moreover have "\<not> fileWalked opts typ name fnode0" using plural cl by (simp add: fileWalked_def)
      ultimately show ?thesis using tf fn0 by simp
    next
      case other
      then have "setFile n file opts vf a s = Inr s'"
        using run tf False fn by (auto simp: setFile_field_def)
      from rec[OF inv this] show ?thesis using False tf by simp
    qed
  qed
qed

lemma setFile_cover:
  assumes "shapeEq h (heap s)" and "setFile n file opts l a s = Inr s'"
  shows "walkStep (fileWalked opts) opts h None s s'
       \<and> covered (fileWalked opts) opts h None s' (l, a)"
  using assms
proof (induction n arbitrary: l a s s')
  case 0
  then show ?case by (simp add: setFile_0)
next
  case (Suc n)
  note IH = Suc.IH
  note inv = Suc.prems(1)
  from Suc.prems(2) obtain nd where nd: "heap s l = Some nd"
    by (cases "heap s l") (auto simp: setFile_none)
  have post: "setFile_post s s'" by (rule setFile_post[OF Suc.prems(2)])
  show ?case
  proof (cases nd rule: node_walk_cases)
    case inert
    then have "s' = s" using Suc.prems(2) setFile_inert[OF nd] by simp
    moreover from shapeEq_back_inert[OF inv nd inert] obtain nd0 where
      "h l = Some nd0" "inert nd0" by blast
    ultimately show ?thesis by (simp add: covered_inert)
  next
    case (ptr t q)
    then have hl: "h l = Some (NPtr t (Some q))" using shapeEq_back_eq[OF inv nd] by simp
    show ?thesis
    proof (cases "(t, q) \<in> set (seen s)")
      case True
      then have "s' = s" using Suc.prems(2) nd ptr by (simp add: setFile_ptr)
      then show ?thesis using covered_ptr[where h = h, OF hl True] by simp
    next
      case nin: False
      let ?s1 = "s\<lparr>seen := (t, q) # seen s\<rparr>"
      have run: "setFile n file opts q True ?s1 = Inr s'"
        using Suc.prems(2) nd ptr nin by (simp add: setFile_ptr)
      have "shapeEq h (heap ?s1)" using inv by simp
      from IH[OF this run] have w: "walkStep (fileWalked opts) opts h None ?s1 s'"
        and c: "covered (fileWalked opts) opts h None s' (q, True)" by simp_all
      from w have cs: "covStep (fileWalked opts) opts h None ?s1 s'" by (simp add: walkStep_def)
      have "covStep (fileWalked opts) opts h None s s'" by (rule covStep_push[OF cs c])
      then have "walkStep (fileWalked opts) opts h None s s'" by (rule setFile_post_walkStep[OF post])
      moreover have "(t, q) \<in> set (seen s')" using cs by (auto simp: covStep_def grows_def)
      ultimately show ?thesis using covered_ptr[where h = h, OF hl] by simp
    qed
  next
    case (struct t fs pr)
    then have hl: "h l = Some (NStruct t fs pr)" using shapeEq_back_eq[OF inv nd] by simp
    from struct have run:
      "forEach (setFile_field (setFile n file opts) file opts t (byName fs pr) a) fs s = Inr s'"
      using Suc.prems(2) nd by (simp add: setFile_struct)
    have "walkStep (fileWalked opts) opts h None s s'
        \<and> (\<forall>tf \<in> set fs. a \<and> exported (fst tf) \<and> (\<exists>fnode. h (snd tf) = Some fnode
              \<and> fileWalked opts t (fst tf) fnode) \<longrightarrow>
           covered (fileWalked opts) opts h None s' (snd tf, True))"
    proof (rule forEach_collect[where R = "walkStep (fileWalked opts) opts h None" and ?s0.0 = s,
          OF _ _ _ _ _ run])
      show "walkStep (fileWalked opts) opts h None s s" for s by simp
      show "walkStep (fileWalked opts) opts h None s s''"
        if "walkStep (fileWalked opts) opts h None s s'" "walkStep (fileWalked opts) opts h None s' s''"
        for s s' s'' using that by (rule walkStep_trans)
      show "a \<and> exported (fst x) \<and> (\<exists>fnode. h (snd x) = Some fnode
              \<and> fileWalked opts t (fst x) fnode) \<longrightarrow>
           covered (fileWalked opts) opts h None s' (snd x, True)"
        if "a \<and> exported (fst x) \<and> (\<exists>fnode. h (snd x) = Some fnode
              \<and> fileWalked opts t (fst x) fnode) \<longrightarrow>
           covered (fileWalked opts) opts h None s1 (snd x, True)"
          "walkStep (fileWalked opts) opts h None s1 s'"
        for x s1 s' using that walkStep_covered by blast
      show "walkStep (fileWalked opts) opts h None s1 s2
        \<and> (a \<and> exported (fst x) \<and> (\<exists>fnode. h (snd x) = Some fnode
              \<and> fileWalked opts t (fst x) fnode) \<longrightarrow>
           covered (fileWalked opts) opts h None s2 (snd x, True))"
        if "x \<in> set fs" "walkStep (fileWalked opts) opts h None s s1"
          "setFile_field (setFile n file opts) file opts t (byName fs pr) a x s1 = Inr s2"
        for x s1 s2
        by (rule setFile_field_cover[OF IH walkStep_shape[OF that(2) inv] that(3)])
      show "walkStep (fileWalked opts) opts h None s s" by simp
    qed
    then have w: "walkStep (fileWalked opts) opts h None s s'"
      and q: "\<And>name vf fnode. (name, vf) \<in> set fs \<Longrightarrow> a \<Longrightarrow> exported name \<Longrightarrow> h vf = Some fnode \<Longrightarrow>
                fileWalked opts t name fnode \<Longrightarrow> covered (fileWalked opts) opts h None s' (vf, True)"
      by fastforce+
    have "covered (fileWalked opts) opts h None s' (l, a)"
    proof (rule covered_by_children)
      show "settled opts h None s' (l, a)" by (rule settled_struct[where h = h and l = l, OF hl]) simp
      fix y assume "inner (fileWalked opts) h (l, a) y"
      from inner_struct[where h = h and l = l, OF hl this] q
      show "covered (fileWalked opts) opts h None s' y" by blast
    qed
    with w show ?thesis by simp
  next
    case (map t kvs)
    then have hl: "h l = Some (NMap t (Some kvs))" using shapeEq_back_eq[OF inv nd] by simp
    from map have run: "forEach (eachEntry (setFile n file opts) l) (map fst kvs) s = Inr s'"
      using Suc.prems(2) nd by (simp add: setFile_map)
    have "walkStep (fileWalked opts) opts h None s s'
        \<and> (\<forall>k \<in> set (map fst kvs). covered (fileWalked opts) opts h None s' (k, False)
          \<and> (\<forall>v. map_of kvs k = Some v \<longrightarrow> covered (fileWalked opts) opts h None s' (v, False)))"
    proof (rule forEach_collect[where R = "walkStep (fileWalked opts) opts h None" and ?s0.0 = s,
          OF _ _ _ _ _ run])
      show "walkStep (fileWalked opts) opts h None s s" for s by simp
      show "walkStep (fileWalked opts) opts h None s s''"
        if "walkStep (fileWalked opts) opts h None s s'" "walkStep (fileWalked opts) opts h None s' s''"
        for s s' s'' using that by (rule walkStep_trans)
      show "covered (fileWalked opts) opts h None s' (x, False)
          \<and> (\<forall>v. map_of kvs x = Some v \<longrightarrow> covered (fileWalked opts) opts h None s' (v, False))"
        if "covered (fileWalked opts) opts h None s1 (x, False)
          \<and> (\<forall>v. map_of kvs x = Some v \<longrightarrow> covered (fileWalked opts) opts h None s1 (v, False))"
          "walkStep (fileWalked opts) opts h None s1 s'"
        for x s1 s' using that walkStep_covered by blast
      show "walkStep (fileWalked opts) opts h None s1 s2
        \<and> (covered (fileWalked opts) opts h None s2 (x, False)
          \<and> (\<forall>v. map_of kvs x = Some v \<longrightarrow> covered (fileWalked opts) opts h None s2 (v, False)))"
        if "x \<in> set (map fst kvs)" "walkStep (fileWalked opts) opts h None s s1"
          "eachEntry (setFile n file opts) l x s1 = Inr s2"
        for x s1 s2
        by (rule eachEntry_cover[where h = h and l = l, OF IH walkStep_shape[OF that(2) inv] hl that(3)])
      show "walkStep (fileWalked opts) opts h None s s" by simp
    qed
    then have w: "walkStep (fileWalked opts) opts h None s s'"
      and q: "\<And>k. k \<in> set (map fst kvs) \<Longrightarrow> covered (fileWalked opts) opts h None s' (k, False)"
      and q': "\<And>k v. k \<in> set (map fst kvs) \<Longrightarrow> map_of kvs k = Some v \<Longrightarrow>
                covered (fileWalked opts) opts h None s' (v, False)"
      by blast+
    have "covered (fileWalked opts) opts h None s' (l, a)"
    proof (rule covered_by_children)
      show "settled opts h None s' (l, a)" by (rule settled_other) (use hl in auto)
      fix y assume "inner (fileWalked opts) h (l, a) y"
      from inner_map[where h = h and l = l, OF hl this] q q'
      show "covered (fileWalked opts) opts h None s' y" by blast
    qed
    with w show ?thesis by simp
  next
    case (slice t es)
    then have hl: "h l = Some (NSlice t (Some es))" using shapeEq_back_eq[OF inv nd] by simp
    from slice have run: "forEach (eachElem (setFile n file opts) l a) [0..<length es] s = Inr s'"
      using Suc.prems(2) nd by (simp add: setFile_slice)
    have "walkStep (fileWalked opts) opts h None s s'
        \<and> (\<forall>i \<in> set [0..<length es]. covered (fileWalked opts) opts h None s' (es ! i, True))"
    proof (rule forEach_collect[where R = "walkStep (fileWalked opts) opts h None" and ?s0.0 = s,
          OF _ _ _ _ _ run])
      show "walkStep (fileWalked opts) opts h None s s" for s by simp
      show "walkStep (fileWalked opts) opts h None s s''"
        if "walkStep (fileWalked opts) opts h None s s'" "walkStep (fileWalked opts) opts h None s' s''"
        for s s' s'' using that by (rule walkStep_trans)
      show "covered (fileWalked opts) opts h None s' (es ! x, True)"
        if "covered (fileWalked opts) opts h None s1 (es ! x, True)"
          "walkStep (fileWalked opts) opts h None s1 s'"
        for x s1 s' using that by (rule walkStep_covered)
      show "walkStep (fileWalked opts) opts h None s1 s2
        \<and> covered (fileWalked opts) opts h None s2 (es ! x, True)"
        if "x \<in> set [0..<length es]" "walkStep (fileWalked opts) opts h None s s1"
          "eachElem (setFile n file opts) l a x s1 = Inr s2"
        for x s1 s2
      proof (rule eachElem_cover[where h = h and l = l, OF IH walkStep_shape[OF that(2) inv] _ _ that(3)])
        show "h l = Some (NSlice t (Some es)) \<and> True = True \<or> h l = Some (NArray t es) \<and> True = a"
          using hl by simp
        show "x < length es" using that(1) by simp
      qed
      show "walkStep (fileWalked opts) opts h None s s" by simp
    qed
    then have w: "walkStep (fileWalked opts) opts h None s s'"
      and q: "\<And>i. i < length es \<Longrightarrow> covered (fileWalked opts) opts h None s' (es ! i, True)"
      by simp_all
    have "covered (fileWalked opts) opts h None s' (l, a)"
    proof (rule covered_by_children)
      show "settled opts h None s' (l, a)" by (rule settled_other) (use hl in auto)
      fix y assume "inner (fileWalked opts) h (l, a) y"
      from inner_slice[where h = h and l = l, OF hl this] q
      show "covered (fileWalked opts) opts h None s' y" by blast
    qed
    with w show ?thesis by simp
  next
    case (array t es)
    then have hl: "h l = Some (NArray t es)" using shapeEq_back_eq[OF inv nd] by simp
    from array have run: "forEach (eachElem (setFile n file opts) l a) [0..<length es] s = Inr s'"
      using Suc.prems(2) nd by (simp add: setFile_array)
    have "walkStep (fileWalked opts) opts h None s s'
        \<and> (\<forall>i \<in> set [0..<length es]. covered (fileWalked opts) opts h None s' (es ! i, a))"
    proof (rule forEach_collect[where R = "walkStep (fileWalked opts) opts h None" and ?s0.0 = s,
          OF _ _ _ _ _ run])
      show "walkStep (fileWalked opts) opts h None s s" for s by simp
      show "walkStep (fileWalked opts) opts h None s s''"
        if "walkStep (fileWalked opts) opts h None s s'" "walkStep (fileWalked opts) opts h None s' s''"
        for s s' s'' using that by (rule walkStep_trans)
      show "covered (fileWalked opts) opts h None s' (es ! x, a)"
        if "covered (fileWalked opts) opts h None s1 (es ! x, a)"
          "walkStep (fileWalked opts) opts h None s1 s'"
        for x s1 s' using that by (rule walkStep_covered)
      show "walkStep (fileWalked opts) opts h None s1 s2
        \<and> covered (fileWalked opts) opts h None s2 (es ! x, a)"
        if "x \<in> set [0..<length es]" "walkStep (fileWalked opts) opts h None s s1"
          "eachElem (setFile n file opts) l a x s1 = Inr s2"
        for x s1 s2
      proof (rule eachElem_cover[where h = h and l = l, OF IH walkStep_shape[OF that(2) inv] _ _ that(3)])
        show "h l = Some (NSlice t (Some es)) \<and> a = True \<or> h l = Some (NArray t es) \<and> a = a"
          using hl by simp
        show "x < length es" using that(1) by simp
      qed
      show "walkStep (fileWalked opts) opts h None s s" by simp
    qed
    then have w: "walkStep (fileWalked opts) opts h None s s'"
      and q: "\<And>i. i < length es \<Longrightarrow> covered (fileWalked opts) opts h None s' (es ! i, a)"
      by simp_all
    have "covered (fileWalked opts) opts h None s' (l, a)"
    proof (rule covered_by_children)
      show "settled opts h None s' (l, a)" by (rule settled_other) (use hl in auto)
      fix y assume "inner (fileWalked opts) h (l, a) y"
      from inner_array[where h = h and l = l, OF hl this] q
      show "covered (fileWalked opts) opts h None s' y" by blast
    qed
    with w show ?thesis by simp
  next
    case (iface t c)
    then have hl: "h l = Some (NIface t (Some c))" using shapeEq_back_eq[OF inv nd] by simp
    from iface have "setFile n file opts c False s = Inr s'"
      using Suc.prems(2) nd by (simp add: setFile_iface)
    from IH[OF inv this] have w: "walkStep (fileWalked opts) opts h None s s'"
      and c: "covered (fileWalked opts) opts h None s' (c, False)" by simp_all
    have "covered (fileWalked opts) opts h None s' (l, a)"
    proof (rule covered_by_children)
      show "settled opts h None s' (l, a)" by (rule settled_other) (use hl in auto)
      fix y assume "inner (fileWalked opts) h (l, a) y"
      from inner_iface[where h = h and l = l, OF hl this] c
      show "covered (fileWalked opts) opts h None s' y" by simp
    qed
    with w show ?thesis by simp
  qed
qed


section \<open>\<open>assertFile\<close> settles every value it can reach\<close>

lemma accRel_grows: "accRel w acc acc' \<Longrightarrow> grows (snd acc) (snd acc')"
  unfolding accRel_def grows_def seenExt_def by auto

lemma accRel_heap: "accRel w acc acc' \<Longrightarrow> heap (snd acc') = heap (snd acc)"
  by (simp add: accRel_def)

lemma assertStep_refl [simp]: "assertStep W opts h w acc acc"
  by (simp add: assertStep_def)

lemma assertStep_trans:
  "assertStep W opts h w x y \<Longrightarrow> assertStep W opts h w y z \<Longrightarrow> assertStep W opts h w x z"
  unfolding assertStep_def by (auto intro: accRel_trans covStep_trans)

lemma assertStep_covered:
  "covered W opts h (Some w) (snd acc) x \<Longrightarrow> assertStep W opts h w acc acc' \<Longrightarrow>
   covered W opts h (Some w) (snd acc') x"
  unfolding assertStep_def by (auto intro: covered_step)

lemma assertStep_heap: "assertStep W opts h w acc acc' \<Longrightarrow> heap (snd acc') = heap (snd acc)"
  unfolding assertStep_def by (auto dest: accRel_heap)

lemma assertStep_grows: "assertStep W opts h w acc acc' \<Longrightarrow> grows (snd acc) (snd acc')"
  unfolding assertStep_def by (auto dest: accRel_grows)

lemma assertStep_same:
  "accRel w acc acc' \<Longrightarrow> seen (snd acc') = seen (snd acc) \<Longrightarrow> assertStep W opts h w acc acc'"
  unfolding assertStep_def using accRel_grows[of w acc acc']
  by (simp add: covStep_same grows_def)

lemma assertStep_from:
  "accRel w acc acc' \<Longrightarrow> covStep W opts h (Some w) (snd acc) (snd acc') \<Longrightarrow>
   assertStep W opts h w acc acc'"
  by (simp add: assertStep_def)

lemma assertStep_covStep:
  "assertStep W opts h w acc acc' \<Longrightarrow> covStep W opts h (Some w) (snd acc) (snd acc')"
  by (simp add: assertStep_def)

lemma assertFile_strings_cover:
  "forEach (assertFile_string place w) jxs acc = Inr acc' \<Longrightarrow>
   seen (snd acc') = seen (snd acc)
   \<and> set (reported (snd acc)) \<subseteq> set (reported (snd acc'))
   \<and> (\<forall>jx \<in> set jxs. snd jx \<noteq> w \<longrightarrow>
         (place @ ''['' @ showNat (fst jx) @ '']'', snd jx, w) \<in> set (reported (snd acc')))"
proof (induction jxs arbitrary: acc)
  case Nil
  then show ?case by simp
next
  case (Cons jx jxs)
  define acc1 where "acc1 = (if snd jx \<noteq> w
      then (False, errorf (place @ ''['' @ showNat (fst jx) @ '']'', snd jx, w) (snd acc)) else acc)"
  have b: "assertFile_string place w jx acc = Inr acc1"
    by (simp add: assertFile_string_def Let_def acc1_def)
  with Cons.prems have rest: "forEach (assertFile_string place w) jxs acc1 = Inr acc'" by simp
  have 1: "seen (snd acc1) = seen (snd acc)" "set (reported (snd acc)) \<subseteq> set (reported (snd acc1))"
    "snd jx \<noteq> w \<longrightarrow> (place @ ''['' @ showNat (fst jx) @ '']'', snd jx, w) \<in> set (reported (snd acc1))"
    by (auto simp: acc1_def errorf_def)
  from Cons.IH[OF rest] 1 show ?case by auto
qed

lemma nth_in_zip_upt: "j < length xs \<Longrightarrow> (j, xs ! j) \<in> set (zip [0..<length xs] xs)"
  by (force simp: in_set_zip)

lemma assertFile_field_cover:
  assumes rec: "\<And>path l a s r. heap s = h \<Longrightarrow> assertFile n ev w opts path l a s = Inr r \<Longrightarrow>
                  assertStep (fileWalked opts) opts h w (True, s) r
                  \<and> covered (fileWalked opts) opts h (Some w) (snd r) (l, a)"
    and inv: "heap (snd acc) = h"
    and run: "assertFile_field (assertFile n ev w opts) path w opts typ a tf acc = Inr acc'"
  shows "assertStep (fileWalked opts) opts h w acc acc'
       \<and> (a \<and> exported (fst tf) \<and> \<not> excl opts (typ, fst tf) \<longrightarrow>
            fieldReported opts h w (snd acc') typ tf
            \<and> (\<forall>fnode. h (snd tf) = Some fnode \<and> fileWalked opts typ (fst tf) fnode \<longrightarrow>
                 covered (fileWalked opts) opts h (Some w) (snd acc') (snd tf, True)))"
proof -
  obtain name vf where tf: "tf = (name, vf)" by (cases tf)
  have rel: "accRel w acc acc'" by (rule assertFile_field_rel'[OF run])
  show ?thesis
  proof (cases "\<not> (a \<and> exported name) \<or> excl opts (typ, name)")
    case True
    then have "acc' = acc" using run tf by (simp add: assertFile_field_def)
    then show ?thesis using True tf by auto
  next
    case False
    then obtain fnode where fn: "heap (snd acc) vf = Some fnode"
      using run tf by (auto simp: assertFile_field_def Let_def split: option.splits)
    then have hf: "h vf = Some fnode" using inv by simp
    consider (single) "is_stringTyp fnode \<and> (hasSuffix name ''File'' \<or> incl opts (typ, name))"
      | (plural) "\<not> (is_stringTyp fnode \<and> (hasSuffix name ''File'' \<or> incl opts (typ, name)))"
          "is_stringSliceTyp fnode \<and> (hasSuffix name ''Files'' \<or> incl opts (typ, name))"
      | (other) "\<not> (is_stringTyp fnode \<and> (hasSuffix name ''File'' \<or> incl opts (typ, name)))"
          "\<not> (is_stringSliceTyp fnode \<and> (hasSuffix name ''Files'' \<or> incl opts (typ, name)))"
      by blast
    then show ?thesis
    proof cases
      case single
      then have nsl: "\<not> is_stringSliceTyp fnode" by (cases fnode) auto
      have nw: "\<not> fileWalked opts typ name fnode" using single by (simp add: fileWalked_def)
      have acc': "acc' = (if stringOf fnode \<noteq> w
          then (False, errorf (path @ ''.'' @ name, stringOf fnode, w) (snd acc)) else acc)"
        using run tf False fn single by (auto simp: assertFile_field_def Let_def)
      then have "seen (snd acc') = seen (snd acc)" by (simp add: errorf_def)
      then have st: "assertStep (fileWalked opts) opts h w acc acc'" by (rule assertStep_same[OF rel])
      have "stringOf fnode \<noteq> w \<Longrightarrow>
          (path @ ''.'' @ name, stringOf fnode, w) \<in> set (reported (snd acc'))"
        using acc' by (simp add: errorf_def)
      then have "stringOf fnode \<noteq> w \<Longrightarrow>
          \<exists>p. (p @ ''.'' @ name, stringOf fnode, w) \<in> set (reported (snd acc'))" by blast
      then have "fieldReported opts h w (snd acc') typ tf"
        using hf nsl tf by (simp add: fieldReported_def)
      with st nw hf tf show ?thesis by simp
    next
      case plural
      then have nst: "\<not> is_stringTyp fnode" by (cases fnode) auto
      have nw: "\<not> fileWalked opts typ name fnode" using plural by (simp add: fileWalked_def)
      have "forEach (assertFile_string (path @ ''.'' @ name) w)
                 (zip [0..<length (stringsOf fnode)] (stringsOf fnode)) acc = Inr acc'"
        using run tf False fn plural by (auto simp: assertFile_field_def Let_def)
      from assertFile_strings_cover[OF this]
      have se: "seen (snd acc') = seen (snd acc)"
        and all: "\<And>jx. jx \<in> set (zip [0..<length (stringsOf fnode)] (stringsOf fnode)) \<Longrightarrow>
            snd jx \<noteq> w \<Longrightarrow>
            ((path @ ''.'' @ name) @ ''['' @ showNat (fst jx) @ '']'', snd jx, w)
              \<in> set (reported (snd acc'))"
        by blast+
      have st: "assertStep (fileWalked opts) opts h w acc acc'" by (rule assertStep_same[OF rel se])
      have "\<exists>p. (p @ ''.'' @ name @ ''['' @ showNat j @ '']'', stringsOf fnode ! j, w)
              \<in> set (reported (snd acc'))"
        if "j < length (stringsOf fnode)" "stringsOf fnode ! j \<noteq> w" for j
        using all[OF nth_in_zip_upt[OF that(1)]] that(2) by (intro exI[of _ path]) simp
      then have "fieldReported opts h w (snd acc') typ tf"
        using hf nst tf by (simp add: fieldReported_def)
      with st nw hf tf show ?thesis by simp
    next
      case other
      then obtain r where r: "assertFile n ev w opts (path @ ''.'' @ name) vf a (snd acc) = Inr r"
        and acc': "acc' = (fst acc \<and> fst r, snd r)"
        using run tf False fn by (auto simp: assertFile_field_def Let_def split: sum.splits)
      from rec[OF inv r] have s1: "assertStep (fileWalked opts) opts h w (True, snd acc) r"
        and c: "covered (fileWalked opts) opts h (Some w) (snd r) (vf, a)" by simp_all
      have st: "assertStep (fileWalked opts) opts h w acc acc'"
        using rel assertStep_covStep[OF s1] by (simp add: assertStep_def acc')
      have "fieldReported opts h w (snd acc') typ tf"
        using hf other tf by (auto simp: fieldReported_def)
      with st c False tf acc' show ?thesis by simp
    qed
  qed
qed

lemma assertFile_entry_cover:
  assumes rec: "\<And>path l a s r. heap s = h \<Longrightarrow> assertFile n ev w opts path l a s = Inr r \<Longrightarrow>
                  assertStep W opts h w (True, s) r \<and> covered W opts h (Some w) (snd r) (l, a)"
    and inv: "heap (snd acc) = h" and nd: "h l = Some (NMap t (Some kvs))"
    and run: "assertFile_entry (assertFile n ev w opts) fuel ev path l k acc = Inr acc'"
  shows "assertStep W opts h w acc acc'
       \<and> (covered W opts h (Some w) (snd acc') (k, False)
          \<and> (\<forall>v. map_of kvs k = Some v \<longrightarrow> covered W opts h (Some w) (snd acc') (v, False)))"
proof -
  have rel: "accRel w acc acc'" by (rule assertFile_entry_rel'[OF run])
  from run obtain kt r1 v r2 where
    r1: "assertFile n ev w opts (''('' @ kt @ '')'') k False (snd acc) = Inr r1"
    and v: "mapIndex (heap (snd r1)) l k = Inr v"
    and r2: "assertFile n ev w opts (path @ ''['' @ formatValue ev (heap (snd r1)) k @ '']'') v False
               (snd r1) = Inr r2"
    and acc': "acc' = (fst acc \<and> fst r1 \<and> fst r2, snd r2)"
    by (auto simp: assertFile_entry_def Let_def split: sum.splits)
  from rec[OF inv r1] have s1: "assertStep W opts h w (True, snd acc) r1"
    and c1: "covered W opts h (Some w) (snd r1) (k, False)" by simp_all
  have inv1: "heap (snd r1) = h" using assertStep_heap[OF s1] inv by simp
  from rec[OF inv1 r2] have s2: "assertStep W opts h w (True, snd r1) r2"
    and c2: "covered W opts h (Some w) (snd r2) (v, False)" by simp_all
  have "covStep W opts h (Some w) (snd acc) (snd r2)"
    using covStep_trans[OF assertStep_covStep[OF s1, simplified] assertStep_covStep[OF s2, simplified]]
    by simp
  then have st: "assertStep W opts h w acc acc'" using rel by (simp add: assertStep_def acc')
  have "map_of kvs k = Some v" using v inv1 nd by (auto simp: mapIndex_def split: option.splits)
  moreover have "covered W opts h (Some w) (snd r2) (k, False)"
    using covered_step[OF c1 assertStep_covStep[OF s2, simplified]] by simp
  ultimately show ?thesis using st c2 acc' by simp
qed

lemma assertFile_elem_cover:
  assumes rec: "\<And>path l a s r. heap s = h \<Longrightarrow> assertFile n ev w opts path l a s = Inr r \<Longrightarrow>
                  assertStep W opts h w (True, s) r \<and> covered W opts h (Some w) (snd r) (l, a)"
    and inv: "heap (snd acc) = h"
    and nd: "h l = Some (NSlice t (Some es)) \<and> a' = True \<or> h l = Some (NArray t es) \<and> a' = a"
    and i: "i < length es"
    and run: "assertFile_elem (assertFile n ev w opts) path l a i acc = Inr acc'"
  shows "assertStep W opts h w acc acc' \<and> covered W opts h (Some w) (snd acc') (es ! i, a')"
proof -
  have rel: "accRel w acc acc'" by (rule assertFile_elem_rel'[OF run])
  from nd i inv have "seqIndex (heap (snd acc)) l a i = Inr (es ! i, a')"
    by (auto simp: seqIndex_def)
  with run obtain r where
    r: "assertFile n ev w opts (path @ ''['' @ showNat i @ '']'') (es ! i) a' (snd acc) = Inr r"
    and acc': "acc' = (fst acc \<and> fst r, snd r)"
    by (auto simp: assertFile_elem_def split: sum.splits)
  from rec[OF inv r] have s1: "assertStep W opts h w (True, snd acc) r"
    and c: "covered W opts h (Some w) (snd r) (es ! i, a')" by simp_all
  have "assertStep W opts h w acc acc'"
    using rel assertStep_covStep[OF s1] by (simp add: assertStep_def acc')
  with c acc' show ?thesis by simp
qed

lemma assertFile_cover:
  assumes "heap s = h" and "assertFile n ev w opts path l a s = Inr r"
  shows "assertStep (fileWalked opts) opts h w (True, s) r
       \<and> covered (fileWalked opts) opts h (Some w) (snd r) (l, a)"
  using assms
proof (induction n arbitrary: path l a s r)
  case 0
  then show ?case by (simp add: assertFile_0)
next
  case (Suc n)
  note IH = Suc.IH
  note inv = Suc.prems(1)
  from Suc.prems(2) obtain nd where nd: "heap s l = Some nd"
    by (cases "heap s l") (auto simp: assertFile_none)
  then have hnd: "h l = Some nd" using inv by simp
  have rel: "accRel w (True, s) r" by (rule assertFile_rel[OF Suc.prems(2)])
  have invacc: "heap (snd acc) = h" if "assertStep (fileWalked opts) opts h w (True, s) acc" for acc
    using assertStep_heap[OF that] inv by simp
  show ?case
  proof (cases nd rule: node_walk_cases)
    case inert
    then have "r = (True, s)" using Suc.prems(2) assertFile_inert[OF nd] by simp
    then show ?thesis using covered_inert[where h = h, OF hnd inert] by simp
  next
    case (ptr t q)
    then have hl: "h l = Some (NPtr t (Some q))" using hnd by simp
    show ?thesis
    proof (cases "(t, q) \<in> set (seen s)")
      case True
      then have "r = (True, s)" using Suc.prems(2) nd ptr by (simp add: assertFile_ptr)
      then show ?thesis using covered_ptr[where h = h, OF hl True] by simp
    next
      case nin: False
      let ?s1 = "s\<lparr>seen := (t, q) # seen s\<rparr>"
      have run: "assertFile n ev w opts path q True ?s1 = Inr r"
        using Suc.prems(2) nd ptr nin by (simp add: assertFile_ptr)
      have "heap ?s1 = h" using inv by simp
      from IH[OF this run] have st: "assertStep (fileWalked opts) opts h w (True, ?s1) r"
        and c: "covered (fileWalked opts) opts h (Some w) (snd r) (q, True)" by simp_all
      from st have cs: "covStep (fileWalked opts) opts h (Some w) ?s1 (snd r)"
        by (simp add: assertStep_def)
      have "covStep (fileWalked opts) opts h (Some w) s (snd r)" by (rule covStep_push[OF cs c])
      then have "assertStep (fileWalked opts) opts h w (True, s) r"
        using rel by (simp add: assertStep_def)
      moreover have "(t, q) \<in> set (seen (snd r))" using cs by (auto simp: covStep_def grows_def)
      ultimately show ?thesis using covered_ptr[where h = h, OF hl] by simp
    qed
  next
    case (struct t fs pr)
    then have hl: "h l = Some (NStruct t fs pr)" using hnd by simp
    from struct have run:
      "forEach (assertFile_field (assertFile n ev w opts) path w opts t a) fs (True, s) = Inr r"
      using Suc.prems(2) nd by (simp add: assertFile_struct)
    have "assertStep (fileWalked opts) opts h w (True, s) r
        \<and> (\<forall>tf \<in> set fs. a \<and> exported (fst tf) \<and> \<not> excl opts (t, fst tf) \<longrightarrow>
            fieldReported opts h w (snd r) t tf
            \<and> (\<forall>fnode. h (snd tf) = Some fnode \<and> fileWalked opts t (fst tf) fnode \<longrightarrow>
                 covered (fileWalked opts) opts h (Some w) (snd r) (snd tf, True)))"
    proof (rule forEach_collect[where R = "assertStep (fileWalked opts) opts h w"
          and ?s0.0 = "(True, s)", OF _ _ _ _ _ run])
      show "assertStep (fileWalked opts) opts h w x x" for x by simp
      show "assertStep (fileWalked opts) opts h w x z"
        if "assertStep (fileWalked opts) opts h w x y" "assertStep (fileWalked opts) opts h w y z"
        for x y z using that by (rule assertStep_trans)
      show "a \<and> exported (fst x) \<and> \<not> excl opts (t, fst x) \<longrightarrow>
            fieldReported opts h w (snd acc') t x
            \<and> (\<forall>fnode. h (snd x) = Some fnode \<and> fileWalked opts t (fst x) fnode \<longrightarrow>
                 covered (fileWalked opts) opts h (Some w) (snd acc') (snd x, True))"
        if "a \<and> exported (fst x) \<and> \<not> excl opts (t, fst x) \<longrightarrow>
            fieldReported opts h w (snd acc1) t x
            \<and> (\<forall>fnode. h (snd x) = Some fnode \<and> fileWalked opts t (fst x) fnode \<longrightarrow>
                 covered (fileWalked opts) opts h (Some w) (snd acc1) (snd x, True))"
          "assertStep (fileWalked opts) opts h w acc1 acc'"
        for x acc1 acc'
        using that(1) fieldReported_mono[OF _ assertStep_grows[OF that(2)]]
          assertStep_covered[OF _ that(2)] by blast
      show "assertStep (fileWalked opts) opts h w acc1 acc2
        \<and> (a \<and> exported (fst x) \<and> \<not> excl opts (t, fst x) \<longrightarrow>
            fieldReported opts h w (snd acc2) t x
            \<and> (\<forall>fnode. h (snd x) = Some fnode \<and> fileWalked opts t (fst x) fnode \<longrightarrow>
                 covered (fileWalked opts) opts h (Some w) (snd acc2) (snd x, True)))"
        if "x \<in> set fs" "assertStep (fileWalked opts) opts h w (True, s) acc1"
          "assertFile_field (assertFile n ev w opts) path w opts t a x acc1 = Inr acc2"
        for x acc1 acc2
        by (rule assertFile_field_cover[OF IH invacc[OF that(2)] that(3)])
      show "assertStep (fileWalked opts) opts h w (True, s) (True, s)" by simp
    qed
    then have st: "assertStep (fileWalked opts) opts h w (True, s) r"
      and rep: "\<And>tf. tf \<in> set fs \<Longrightarrow> a \<Longrightarrow> exported (fst tf) \<Longrightarrow> \<not> excl opts (t, fst tf) \<Longrightarrow>
                fieldReported opts h w (snd r) t tf"
      and q: "\<And>name vf fnode. (name, vf) \<in> set fs \<Longrightarrow> a \<Longrightarrow> exported name \<Longrightarrow> h vf = Some fnode \<Longrightarrow>
                fileWalked opts t name fnode \<Longrightarrow>
                covered (fileWalked opts) opts h (Some w) (snd r) (vf, True)"
      by (fastforce simp: fileWalked_def)+
    have "covered (fileWalked opts) opts h (Some w) (snd r) (l, a)"
    proof (rule covered_by_children)
      show "settled opts h (Some w) (snd r) (l, a)"
      proof (rule settled_struct[where h = h and l = l, OF hl])
        fix w' assume "Some w = Some w'"
        then show "fileReported opts h w' (snd r) (l, a)"
          using hl rep by (auto simp: fileReported_def)
      qed
      fix y assume "inner (fileWalked opts) h (l, a) y"
      from inner_struct[where h = h and l = l, OF hl this] q
      show "covered (fileWalked opts) opts h (Some w) (snd r) y" by blast
    qed
    with st show ?thesis by simp
  next
    case (map t kvs)
    then have hl: "h l = Some (NMap t (Some kvs))" using hnd by simp
    from map have run:
      "forEach (assertFile_entry (assertFile n ev w opts) n ev path l) (map fst kvs) (True, s) = Inr r"
      using Suc.prems(2) nd by (simp add: assertFile_map)
    have "assertStep (fileWalked opts) opts h w (True, s) r
        \<and> (\<forall>k \<in> set (map fst kvs). covered (fileWalked opts) opts h (Some w) (snd r) (k, False)
          \<and> (\<forall>v. map_of kvs k = Some v \<longrightarrow>
                covered (fileWalked opts) opts h (Some w) (snd r) (v, False)))"
    proof (rule forEach_collect[where R = "assertStep (fileWalked opts) opts h w"
          and ?s0.0 = "(True, s)", OF _ _ _ _ _ run])
      show "assertStep (fileWalked opts) opts h w x x" for x by simp
      show "assertStep (fileWalked opts) opts h w x z"
        if "assertStep (fileWalked opts) opts h w x y" "assertStep (fileWalked opts) opts h w y z"
        for x y z using that by (rule assertStep_trans)
      show "covered (fileWalked opts) opts h (Some w) (snd acc') (x, False)
          \<and> (\<forall>v. map_of kvs x = Some v \<longrightarrow>
                covered (fileWalked opts) opts h (Some w) (snd acc') (v, False))"
        if "covered (fileWalked opts) opts h (Some w) (snd acc1) (x, False)
          \<and> (\<forall>v. map_of kvs x = Some v \<longrightarrow>
                covered (fileWalked opts) opts h (Some w) (snd acc1) (v, False))"
          "assertStep (fileWalked opts) opts h w acc1 acc'"
        for x acc1 acc'
        using that(1) assertStep_covered[OF _ that(2)] by blast
      show "assertStep (fileWalked opts) opts h w acc1 acc2
        \<and> (covered (fileWalked opts) opts h (Some w) (snd acc2) (x, False)
          \<and> (\<forall>v. map_of kvs x = Some v \<longrightarrow>
                covered (fileWalked opts) opts h (Some w) (snd acc2) (v, False)))"
        if "x \<in> set (map fst kvs)" "assertStep (fileWalked opts) opts h w (True, s) acc1"
          "assertFile_entry (assertFile n ev w opts) n ev path l x acc1 = Inr acc2"
        for x acc1 acc2
        by (rule assertFile_entry_cover[where h = h and l = l, OF IH invacc[OF that(2)] hl that(3)])
      show "assertStep (fileWalked opts) opts h w (True, s) (True, s)" by simp
    qed
    then have st: "assertStep (fileWalked opts) opts h w (True, s) r"
      and q: "\<And>k. k \<in> set (map fst kvs) \<Longrightarrow>
                covered (fileWalked opts) opts h (Some w) (snd r) (k, False)"
      and q': "\<And>k v. k \<in> set (map fst kvs) \<Longrightarrow> map_of kvs k = Some v \<Longrightarrow>
                covered (fileWalked opts) opts h (Some w) (snd r) (v, False)"
      by blast+
    have "covered (fileWalked opts) opts h (Some w) (snd r) (l, a)"
    proof (rule covered_by_children)
      show "settled opts h (Some w) (snd r) (l, a)" by (rule settled_other) (use hl in auto)
      fix y assume "inner (fileWalked opts) h (l, a) y"
      from inner_map[where h = h and l = l, OF hl this] q q'
      show "covered (fileWalked opts) opts h (Some w) (snd r) y" by blast
    qed
    with st show ?thesis by simp
  next
    case (slice t es)
    then have hl: "h l = Some (NSlice t (Some es))" using hnd by simp
    from slice have run:
      "forEach (assertFile_elem (assertFile n ev w opts) path l a) [0..<length es] (True, s) = Inr r"
      using Suc.prems(2) nd by (simp add: assertFile_slice)
    have "assertStep (fileWalked opts) opts h w (True, s) r
        \<and> (\<forall>i \<in> set [0..<length es].
              covered (fileWalked opts) opts h (Some w) (snd r) (es ! i, True))"
    proof (rule forEach_collect[where R = "assertStep (fileWalked opts) opts h w"
          and ?s0.0 = "(True, s)", OF _ _ _ _ _ run])
      show "assertStep (fileWalked opts) opts h w x x" for x by simp
      show "assertStep (fileWalked opts) opts h w x z"
        if "assertStep (fileWalked opts) opts h w x y" "assertStep (fileWalked opts) opts h w y z"
        for x y z using that by (rule assertStep_trans)
      show "covered (fileWalked opts) opts h (Some w) (snd acc') (es ! x, True)"
        if "covered (fileWalked opts) opts h (Some w) (snd acc1) (es ! x, True)"
          "assertStep (fileWalked opts) opts h w acc1 acc'"
        for x acc1 acc' using that by (rule assertStep_covered)
      show "assertStep (fileWalked opts) opts h w acc1 acc2
        \<and> covered (fileWalked opts) opts h (Some w) (snd acc2) (es ! x, True)"
        if "x \<in> set [0..<length es]" "assertStep (fileWalked opts) opts h w (True, s) acc1"
          "assertFile_elem (assertFile n ev w opts) path l a x acc1 = Inr acc2"
        for x acc1 acc2
      proof (rule assertFile_elem_cover[where h = h and l = l, OF IH invacc[OF that(2)] _ _ that(3)])
        show "h l = Some (NSlice t (Some es)) \<and> True = True \<or> h l = Some (NArray t es) \<and> True = a"
          using hl by simp
        show "x < length es" using that(1) by simp
      qed
      show "assertStep (fileWalked opts) opts h w (True, s) (True, s)" by simp
    qed
    then have st: "assertStep (fileWalked opts) opts h w (True, s) r"
      and q: "\<And>i. i < length es \<Longrightarrow>
                covered (fileWalked opts) opts h (Some w) (snd r) (es ! i, True)"
      by simp_all
    have "covered (fileWalked opts) opts h (Some w) (snd r) (l, a)"
    proof (rule covered_by_children)
      show "settled opts h (Some w) (snd r) (l, a)" by (rule settled_other) (use hl in auto)
      fix y assume "inner (fileWalked opts) h (l, a) y"
      from inner_slice[where h = h and l = l, OF hl this] q
      show "covered (fileWalked opts) opts h (Some w) (snd r) y" by blast
    qed
    with st show ?thesis by simp
  next
    case (array t es)
    then have hl: "h l = Some (NArray t es)" using hnd by simp
    from array have run:
      "forEach (assertFile_elem (assertFile n ev w opts) path l a) [0..<length es] (True, s) = Inr r"
      using Suc.prems(2) nd by (simp add: assertFile_array)
    have "assertStep (fileWalked opts) opts h w (True, s) r
        \<and> (\<forall>i \<in> set [0..<length es].
              covered (fileWalked opts) opts h (Some w) (snd r) (es ! i, a))"
    proof (rule forEach_collect[where R = "assertStep (fileWalked opts) opts h w"
          and ?s0.0 = "(True, s)", OF _ _ _ _ _ run])
      show "assertStep (fileWalked opts) opts h w x x" for x by simp
      show "assertStep (fileWalked opts) opts h w x z"
        if "assertStep (fileWalked opts) opts h w x y" "assertStep (fileWalked opts) opts h w y z"
        for x y z using that by (rule assertStep_trans)
      show "covered (fileWalked opts) opts h (Some w) (snd acc') (es ! x, a)"
        if "covered (fileWalked opts) opts h (Some w) (snd acc1) (es ! x, a)"
          "assertStep (fileWalked opts) opts h w acc1 acc'"
        for x acc1 acc' using that by (rule assertStep_covered)
      show "assertStep (fileWalked opts) opts h w acc1 acc2
        \<and> covered (fileWalked opts) opts h (Some w) (snd acc2) (es ! x, a)"
        if "x \<in> set [0..<length es]" "assertStep (fileWalked opts) opts h w (True, s) acc1"
          "assertFile_elem (assertFile n ev w opts) path l a x acc1 = Inr acc2"
        for x acc1 acc2
      proof (rule assertFile_elem_cover[where h = h and l = l, OF IH invacc[OF that(2)] _ _ that(3)])
        show "h l = Some (NSlice t (Some es)) \<and> a = True \<or> h l = Some (NArray t es) \<and> a = a"
          using hl by simp
        show "x < length es" using that(1) by simp
      qed
      show "assertStep (fileWalked opts) opts h w (True, s) (True, s)" by simp
    qed
    then have st: "assertStep (fileWalked opts) opts h w (True, s) r"
      and q: "\<And>i. i < length es \<Longrightarrow>
                covered (fileWalked opts) opts h (Some w) (snd r) (es ! i, a)"
      by simp_all
    have "covered (fileWalked opts) opts h (Some w) (snd r) (l, a)"
    proof (rule covered_by_children)
      show "settled opts h (Some w) (snd r) (l, a)" by (rule settled_other) (use hl in auto)
      fix y assume "inner (fileWalked opts) h (l, a) y"
      from inner_array[where h = h and l = l, OF hl this] q
      show "covered (fileWalked opts) opts h (Some w) (snd r) y" by blast
    qed
    with st show ?thesis by simp
  next
    case (iface t c)
    then have hl: "h l = Some (NIface t (Some c))" using hnd by simp
    from iface obtain ct where
      "assertFile n ev w opts (path @ ''.('' @ ct @ '')'') c False s = Inr r"
      using Suc.prems(2) nd by (auto simp: assertFile_iface split: sum.splits)
    from IH[OF inv this] have st: "assertStep (fileWalked opts) opts h w (True, s) r"
      and c: "covered (fileWalked opts) opts h (Some w) (snd r) (c, False)" by simp_all
    have "covered (fileWalked opts) opts h (Some w) (snd r) (l, a)"
    proof (rule covered_by_children)
      show "settled opts h (Some w) (snd r) (l, a)" by (rule settled_other) (use hl in auto)
      fix y assume "inner (fileWalked opts) h (l, a) y"
      from inner_iface[where h = h and l = l, OF hl this] c
      show "covered (fileWalked opts) opts h (Some w) (snd r) y" by simp
    qed
    with st show ?thesis by simp
  qed
qed


section \<open>\<open>setDirectory\<close> settles every value it can reach\<close>

lemma setDirectory_post_walkStep:
  "setDirectory_post ev dir s s' \<Longrightarrow> covStep W opts h want s s' \<Longrightarrow> walkStep W opts h want s s'"
  unfolding walkStep_def setDirectory_post_def by (auto intro: shapeEq_trans)

lemma setDirectory_string_seen:
  "setDirectory_string ev dir l i s = Inr s' \<Longrightarrow> seen s' = seen s \<and> reported s' = reported s"
  by (auto simp: setDirectory_string_def callSetDirectory_def
      split: option.splits node.splits if_splits)

lemma setDirectory_strings_seen:
  "forEach (setDirectory_string ev dir l) xs s = Inr s' \<Longrightarrow>
   seen s' = seen s \<and> reported s' = reported s"
proof (induction xs arbitrary: s)
  case Nil
  then show ?case by simp
next
  case (Cons x xs)
  from Cons.prems obtain s1 where 1: "setDirectory_string ev dir l x s = Inr s1"
    and 2: "forEach (setDirectory_string ev dir l) xs s1 = Inr s'"
    by (cases "setDirectory_string ev dir l x s") auto
  from setDirectory_string_seen[OF 1] Cons.IH[OF 2] show ?case by simp
qed

lemma setDirectory_field_cover:
  assumes rec: "\<And>l a s s'. shapeEq h (heap s) \<Longrightarrow> setDirectory n ev dir l a s = Inr s' \<Longrightarrow>
                  walkStep allWalked opts h None s s' \<and> covered allWalked opts h None s' (l, a)"
    and inv: "shapeEq h (heap s)"
    and run: "setDirectory_field (setDirectory n ev dir) a tf s = Inr s'"
  shows "walkStep allWalked opts h None s s'
       \<and> (a \<and> exported (fst tf) \<longrightarrow> covered allWalked opts h None s' (snd tf, True))"
proof (cases "a \<and> exported (fst tf)")
  case True
  then have "setDirectory n ev dir (snd tf) a s = Inr s'"
    using run by (simp add: setDirectory_field_def)
  from rec[OF inv this] True show ?thesis by simp
next
  case False
  then have "s' = s" using run by (simp add: setDirectory_field_def)
  then show ?thesis using False by auto
qed

lemma setDirectory_cover:
  assumes cap: "capWritesStrings ev"
  shows "shapeEq h (heap s) \<Longrightarrow> setDirectory n ev dir l a s = Inr s' \<Longrightarrow>
         walkStep allWalked opts h None s s' \<and> covered allWalked opts h None s' (l, a)"
proof (induction n arbitrary: l a s s')
  case 0
  then show ?case by (simp add: setDirectory_0)
next
  case (Suc n)
  note IH = Suc.IH
  note inv = Suc.prems(1)
  note run0 = Suc.prems(2)
  from run0 obtain nd where nd: "heap s l = Some nd"
    by (cases "heap s l") (auto simp: setDirectory_none)
  show ?case
  proof (cases "isNil nd")
    case True
    then have "s' = s" using run0 setDirectory_nil[OF nd] by simp
    moreover from True have "inert nd" by (cases nd) auto
    from shapeEq_back_inert[OF inv nd this] obtain nd0 where "h l = Some nd0" "inert nd0" by blast
    ultimately show ?thesis by (simp add: covered_inert)
  next
    case nonnil: False
    from run0 obtain r where r: "receiver (heap s) l a nd = Inr r"
      using setDirectory_noreceiver[OF nd nonnil]
      by (cases "receiver (heap s) l a nd") auto
    define s1 where "s1 = callSetDirectory ev dir r s"
    have p1: "setDirectory_post ev dir s s1"
      unfolding s1_def by (rule callSetDirectory_post[OF cap])
    have "seen s1 = seen s" "reported s1 = reported s"
      using p1 by (simp_all add: s1_def setDirectory_post_def)
    then have "covStep allWalked opts h None s s1" by (simp add: covStep_same)
    then have w1: "walkStep allWalked opts h None s s1" by (rule setDirectory_post_walkStep[OF p1])
    have inv1: "shapeEq h (heap s1)" by (rule walkStep_shape[OF w1 inv])
    note unf = setDirectory_called[OF nd nonnil r, of n ev dir, folded s1_def]
    from run0 unf obtain nd1 where nd1: "heap s1 l = Some nd1"
      by (cases "heap s1 l") auto
    have fin: "walkStep allWalked opts h None s s' \<and> covered allWalked opts h None s' (l, a)"
      if "walkStep allWalked opts h None s1 s'" "covered allWalked opts h None s' (l, a)"
      using walkStep_trans[OF w1 that(1)] that(2) by simp
    have same: "walkStep allWalked opts h None s s' \<and> covered allWalked opts h None s' (l, a)"
      if "s' = s1" "inert nd1"
    proof -
      from shapeEq_back_inert[OF inv1 nd1 that(2)] obtain nd0 where
        "h l = Some nd0" "inert nd0" by blast
      then show ?thesis using that(1) w1 by (simp add: covered_inert)
    qed
    show ?thesis
    proof (cases nd1)
      case (NPtr t p)
      then obtain q where q: "p = Some q" using run0 unf nd1 by (cases p) auto
      have hl: "h l = Some (NPtr t (Some q))"
        using shapeEq_back_eq[OF inv1 nd1] NPtr q by simp
      show ?thesis
      proof (cases "(t, q) \<in> set (seen s1)")
        case True
        then have "s' = s1" using run0 unf nd1 NPtr q by simp
        then show ?thesis using covered_ptr[where h = h, OF hl True] w1 by simp
      next
        case nin: False
        define s2 where "s2 = s1\<lparr>seen := (t, q) # seen s1\<rparr>"
        have run: "setDirectory n ev dir q True s2 = Inr s'"
          using run0 unf nd1 NPtr q nin unfolding s2_def by simp
        have inv2: "shapeEq h (heap s2)" using inv1 by (simp add: s2_def)
        from IH[OF inv2 run] have w: "walkStep allWalked opts h None s2 s'"
          and c: "covered allWalked opts h None s' (q, True)" by simp_all
        from w have cs: "covStep allWalked opts h None s2 s'" by (simp add: walkStep_def)
        have "covStep allWalked opts h None s1 s'"
          by (rule covStep_push[OF cs[unfolded s2_def] c])
        moreover have "shapeEq h (heap s')" by (rule walkStep_shape[OF w inv2])
        ultimately have w': "walkStep allWalked opts h None s1 s'" by (simp add: walkStep_def)
        have "(t, q) \<in> set (seen s')" using cs by (auto simp: covStep_def grows_def s2_def)
        then have "covered allWalked opts h None s' (l, a)" by (rule covered_ptr[where h = h, OF hl])
        with w' show ?thesis by (rule fin)
      qed
    next
      case (NStruct t fs pr)
      then have hl: "h l = Some (NStruct t fs pr)" using shapeEq_back_eq[OF inv1 nd1] by simp
      from NStruct have run: "forEach (setDirectory_field (setDirectory n ev dir) a) fs s1 = Inr s'"
        using run0 unf nd1 by simp
      have "walkStep allWalked opts h None s1 s'
          \<and> (\<forall>tf \<in> set fs. a \<and> exported (fst tf) \<longrightarrow>
                covered allWalked opts h None s' (snd tf, True))"
      proof (rule forEach_collect[where R = "walkStep allWalked opts h None" and ?s0.0 = s1,
            OF _ _ _ _ _ run])
        show "walkStep allWalked opts h None s s" for s by simp
        show "walkStep allWalked opts h None s s''"
          if "walkStep allWalked opts h None s s'" "walkStep allWalked opts h None s' s''"
          for s s' s'' using that by (rule walkStep_trans)
        show "a \<and> exported (fst x) \<longrightarrow> covered allWalked opts h None s' (snd x, True)"
          if "a \<and> exported (fst x) \<longrightarrow> covered allWalked opts h None sa (snd x, True)"
            "walkStep allWalked opts h None sa s'"
          for x sa s' using that walkStep_covered by blast
        show "walkStep allWalked opts h None sa sb
          \<and> (a \<and> exported (fst x) \<longrightarrow> covered allWalked opts h None sb (snd x, True))"
          if "x \<in> set fs" "walkStep allWalked opts h None s1 sa"
            "setDirectory_field (setDirectory n ev dir) a x sa = Inr sb"
          for x sa sb
          by (rule setDirectory_field_cover[OF IH walkStep_shape[OF that(2) inv1] that(3)])
        show "walkStep allWalked opts h None s1 s1" by simp
      qed
      then have w: "walkStep allWalked opts h None s1 s'"
        and q: "\<And>name vf. (name, vf) \<in> set fs \<Longrightarrow> a \<Longrightarrow> exported name \<Longrightarrow>
                  covered allWalked opts h None s' (vf, True)"
        by fastforce+
      have "covered allWalked opts h None s' (l, a)"
      proof (rule covered_by_children)
        show "settled opts h None s' (l, a)"
          by (rule settled_struct[where h = h and l = l, OF hl]) simp
        fix y assume "inner allWalked h (l, a) y"
        from inner_struct[where h = h and l = l, OF hl this] q
        show "covered allWalked opts h None s' y" by blast
      qed
      with w show ?thesis by (rule fin)
    next
      case (NMap t m)
      show ?thesis
      proof (cases m)
        case None
        then have "s' = s1" using run0 unf nd1 NMap by (simp add: mapKeys_def)
        then show ?thesis using NMap None by (intro same) simp_all
      next
        case (Some kvs)
        then have hl: "h l = Some (NMap t (Some kvs))"
          using shapeEq_back_eq[OF inv1 nd1] NMap by simp
        have run: "forEach (eachEntry (setDirectory n ev dir) l) (map fst kvs) s1 = Inr s'"
          using run0 unf nd1 NMap Some by (simp add: mapKeys_def)
        have "walkStep allWalked opts h None s1 s'
            \<and> (\<forall>k \<in> set (map fst kvs). covered allWalked opts h None s' (k, False)
              \<and> (\<forall>v. map_of kvs k = Some v \<longrightarrow> covered allWalked opts h None s' (v, False)))"
        proof (rule forEach_collect[where R = "walkStep allWalked opts h None" and ?s0.0 = s1,
              OF _ _ _ _ _ run])
          show "walkStep allWalked opts h None s s" for s by simp
          show "walkStep allWalked opts h None s s''"
            if "walkStep allWalked opts h None s s'" "walkStep allWalked opts h None s' s''"
            for s s' s'' using that by (rule walkStep_trans)
          show "covered allWalked opts h None s' (x, False)
              \<and> (\<forall>v. map_of kvs x = Some v \<longrightarrow> covered allWalked opts h None s' (v, False))"
            if "covered allWalked opts h None sa (x, False)
              \<and> (\<forall>v. map_of kvs x = Some v \<longrightarrow> covered allWalked opts h None sa (v, False))"
              "walkStep allWalked opts h None sa s'"
            for x sa s' using that walkStep_covered by blast
          show "walkStep allWalked opts h None sa sb
            \<and> (covered allWalked opts h None sb (x, False)
              \<and> (\<forall>v. map_of kvs x = Some v \<longrightarrow> covered allWalked opts h None sb (v, False)))"
            if "x \<in> set (map fst kvs)" "walkStep allWalked opts h None s1 sa"
              "eachEntry (setDirectory n ev dir) l x sa = Inr sb"
            for x sa sb
            by (rule eachEntry_cover[where h = h and l = l,
                  OF IH walkStep_shape[OF that(2) inv1] hl that(3)])
          show "walkStep allWalked opts h None s1 s1" by simp
        qed
        then have w: "walkStep allWalked opts h None s1 s'"
          and q: "\<And>k. k \<in> set (map fst kvs) \<Longrightarrow> covered allWalked opts h None s' (k, False)"
          and q': "\<And>k v. k \<in> set (map fst kvs) \<Longrightarrow> map_of kvs k = Some v \<Longrightarrow>
                    covered allWalked opts h None s' (v, False)"
          by blast+
        have "covered allWalked opts h None s' (l, a)"
        proof (rule covered_by_children)
          show "settled opts h None s' (l, a)" by (rule settled_other) (use hl in auto)
          fix y assume "inner allWalked h (l, a) y"
          from inner_map[where h = h and l = l, OF hl this] q q'
          show "covered allWalked opts h None s' y" by blast
        qed
        with w show ?thesis by (rule fin)
      qed
    next
      case (NSlice t m)
      show ?thesis
      proof (cases m)
        case None
        then have "s' = s1" using run0 unf nd1 NSlice by (simp add: seqLen_def)
        then show ?thesis using NSlice None by (intro same) simp_all
      next
        case (Some es)
        then have hl: "h l = Some (NSlice t (Some es))"
          using shapeEq_back_eq[OF inv1 nd1] NSlice by simp
        have run: "forEach (eachElem (setDirectory n ev dir) l a) [0..<length es] s1 = Inr s'"
          using run0 unf nd1 NSlice Some by (simp add: seqLen_def)
        have "walkStep allWalked opts h None s1 s'
            \<and> (\<forall>i \<in> set [0..<length es]. covered allWalked opts h None s' (es ! i, True))"
        proof (rule forEach_collect[where R = "walkStep allWalked opts h None" and ?s0.0 = s1,
              OF _ _ _ _ _ run])
          show "walkStep allWalked opts h None s s" for s by simp
          show "walkStep allWalked opts h None s s''"
            if "walkStep allWalked opts h None s s'" "walkStep allWalked opts h None s' s''"
            for s s' s'' using that by (rule walkStep_trans)
          show "covered allWalked opts h None s' (es ! x, True)"
            if "covered allWalked opts h None sa (es ! x, True)" "walkStep allWalked opts h None sa s'"
            for x sa s' using that by (rule walkStep_covered)
          show "walkStep allWalked opts h None sa sb
            \<and> covered allWalked opts h None sb (es ! x, True)"
            if "x \<in> set [0..<length es]" "walkStep allWalked opts h None s1 sa"
              "eachElem (setDirectory n ev dir) l a x sa = Inr sb"
            for x sa sb
          proof (rule eachElem_cover[where h = h and l = l,
                OF IH walkStep_shape[OF that(2) inv1] _ _ that(3)])
            show "h l = Some (NSlice t (Some es)) \<and> True = True \<or> h l = Some (NArray t es) \<and> True = a"
              using hl by simp
            show "x < length es" using that(1) by simp
          qed
          show "walkStep allWalked opts h None s1 s1" by simp
        qed
        then have w: "walkStep allWalked opts h None s1 s'"
          and q: "\<And>i. i < length es \<Longrightarrow> covered allWalked opts h None s' (es ! i, True)"
          by simp_all
        have "covered allWalked opts h None s' (l, a)"
        proof (rule covered_by_children)
          show "settled opts h None s' (l, a)" by (rule settled_other) (use hl in auto)
          fix y assume "inner allWalked h (l, a) y"
          from inner_slice[where h = h and l = l, OF hl this] q
          show "covered allWalked opts h None s' y" by blast
        qed
        with w show ?thesis by (rule fin)
      qed
    next
      case (NArray t es)
      then have hl: "h l = Some (NArray t es)" using shapeEq_back_eq[OF inv1 nd1] by simp
      have run: "forEach (eachElem (setDirectory n ev dir) l a) [0..<length es] s1 = Inr s'"
        using run0 unf nd1 NArray by (simp add: seqLen_def)
      have "walkStep allWalked opts h None s1 s'
          \<and> (\<forall>i \<in> set [0..<length es]. covered allWalked opts h None s' (es ! i, a))"
      proof (rule forEach_collect[where R = "walkStep allWalked opts h None" and ?s0.0 = s1,
            OF _ _ _ _ _ run])
        show "walkStep allWalked opts h None s s" for s by simp
        show "walkStep allWalked opts h None s s''"
          if "walkStep allWalked opts h None s s'" "walkStep allWalked opts h None s' s''"
          for s s' s'' using that by (rule walkStep_trans)
        show "covered allWalked opts h None s' (es ! x, a)"
          if "covered allWalked opts h None sa (es ! x, a)" "walkStep allWalked opts h None sa s'"
          for x sa s' using that by (rule walkStep_covered)
        show "walkStep allWalked opts h None sa sb
          \<and> covered allWalked opts h None sb (es ! x, a)"
          if "x \<in> set [0..<length es]" "walkStep allWalked opts h None s1 sa"
            "eachElem (setDirectory n ev dir) l a x sa = Inr sb"
          for x sa sb
        proof (rule eachElem_cover[where h = h and l = l,
              OF IH walkStep_shape[OF that(2) inv1] _ _ that(3)])
          show "h l = Some (NSlice t (Some es)) \<and> a = True \<or> h l = Some (NArray t es) \<and> a = a"
            using hl by simp
          show "x < length es" using that(1) by simp
        qed
        show "walkStep allWalked opts h None s1 s1" by simp
      qed
      then have w: "walkStep allWalked opts h None s1 s'"
        and q: "\<And>i. i < length es \<Longrightarrow> covered allWalked opts h None s' (es ! i, a)"
        by simp_all
      have "covered allWalked opts h None s' (l, a)"
      proof (rule covered_by_children)
        show "settled opts h None s' (l, a)" by (rule settled_other) (use hl in auto)
        fix y assume "inner allWalked h (l, a) y"
        from inner_array[where h = h and l = l, OF hl this] q
        show "covered allWalked opts h None s' y" by blast
      qed
      with w show ?thesis by (rule fin)
    next
      case (NStrings t e xs)
      then have run: "forEach (setDirectory_string ev dir l) [0..<length (stringsOf nd1)] s1 = Inr s'"
        using run0 unf nd1 by simp
      then have post: "setDirectory_post ev dir s1 s'"
        by (rule forEach_rel[rotated 3])
          (auto intro: setDirectory_post_trans setDirectory_string_post[OF cap])
      from setDirectory_strings_seen[OF run]
      have "covStep allWalked opts h None s1 s'" by (simp add: covStep_same)
      then have w: "walkStep allWalked opts h None s1 s'" by (rule setDirectory_post_walkStep[OF post])
      from NStrings have "inert nd1" by simp
      from shapeEq_back_inert[OF inv1 nd1 this] obtain nd0 where
        "h l = Some nd0" "inert nd0" by blast
      then have "covered allWalked opts h None s' (l, a)" by (rule covered_inert)
      with w show ?thesis by (rule fin)
    next
      case (NIface t b)
      then obtain c where b: "b = Some c" using run0 unf nd1 by (cases b) auto
      then have hl: "h l = Some (NIface t (Some c))"
        using shapeEq_back_eq[OF inv1 nd1] NIface by simp
      have "setDirectory n ev dir c False s1 = Inr s'"
        using run0 unf nd1 NIface b by simp
      from IH[OF inv1 this] have w: "walkStep allWalked opts h None s1 s'"
        and c: "covered allWalked opts h None s' (c, False)" by simp_all
      have "covered allWalked opts h None s' (l, a)"
      proof (rule covered_by_children)
        show "settled opts h None s' (l, a)" by (rule settled_other) (use hl in auto)
        fix y assume "inner allWalked h (l, a) y"
        from inner_iface[where h = h and l = l, OF hl this] c
        show "covered allWalked opts h None s' y" by simp
      qed
      with w show ?thesis by (rule fin)
    next
      case (NString t x)
      then have "s' = s1" using run0 unf nd1 by simp
      then show ?thesis using NString by (intro same) simp_all
    next
      case (NScalar t)
      then have "s' = s1" using run0 unf nd1 by simp
      then show ?thesis using NScalar by (intro same) simp_all
    next
      case (NOpaque t x)
      then have "s' = s1" using run0 unf nd1 by simp
      then show ?thesis using NOpaque by (intro same) simp_all
    qed
  qed
qed


section \<open>What \<open>AssertFile\<close> reports\<close>

lemma showNat_small:
  "showNat 0 = ''0''" "showNat (Suc 0) = ''1''" "showNat (Suc (Suc 0)) = ''2''"
  "showNat (Suc (Suc (Suc 0))) = ''3''"
  by code_simp+

lemma AssertFile_four:
  assumes "v1 \<noteq> w" and "v3 \<noteq> w"
  shows "(case AssertFile 9 testEnv (Some 0) w [] (fourStore w v1 v3) of
            Inl e \<Rightarrow> False
          | Inr r \<Rightarrow> \<not> fst r \<and> reported (snd r) =
              [(''(*configtest.root).Slice[1].(*configtest.fooSetter).FooFile'', v1, w),
               (''(*configtest.root).Slice[3].(*configtest.fooSetter).FooFile'', v3, w)])"
  using assms
  by (simp add: AssertFile_def assertFile.simps ifaceType.simps eval_nat_numeral newState_def
      fourStore_def fooIn_def assertFile_field_def assertFile_elem_def seqIndex_def seqLen_def
      applyOptions_def noFields_def exported_def isUpper_def hasSuffix_def Let_def errorf_def
      stringTyp_def stringSliceTyp_def showNat_small upt_rec del: showNat.simps)

lemma AssertFile_settles:
  assumes run: "AssertFile n ev (Some l) w options h = Inr r"
    and reach: "(edge (fileWalked (applyOptions options)) h)\<^sup>*\<^sup>* (l, False) y"
  shows "settled (applyOptions options) h (Some w) (snd r) y \<and> distinct (seen (snd r))"
proof -
  from run obtain ty where
    run': "assertFile n ev w (applyOptions options) (''('' @ ty @ '')'') l False (newState h) = Inr r"
    by (auto simp: AssertFile_def split: sum.splits)
  have "heap (newState h) = h" by (simp add: newState_def)
  from assertFile_cover[OF this run']
  have st: "assertStep (fileWalked (applyOptions options)) (applyOptions options) h w
              (True, newState h) r"
    and c: "covered (fileWalked (applyOptions options)) (applyOptions options) h (Some w)
              (snd r) (l, False)" by simp_all
  from st have closed: "covered (fileWalked (applyOptions options)) (applyOptions options) h (Some w)
              (snd r) (q, True)" if "(t, q) \<in> set (seen (snd r))" for t q
    using that by (simp add: assertStep_def covStep_def newState_def)
  have "covered (fileWalked (applyOptions options)) (applyOptions options) h (Some w) (snd r) y"
    by (rule covered_reach[OF c closed reach])
  moreover from st have "distinct (seen (snd r))"
    by (auto simp: assertStep_def accRel_def intro: seenExt_newState)
  ultimately show ?thesis by (simp add: covered_self)
qed

text \<open>
  Claim C6. A call of \<open>AssertFile\<close> that returns has reported failures only for values that
  differ from the expected string, and its result is true exactly when it has reported
  none. No mismatch cuts the walk short: for every struct that can be reached from the
  root (through pointers, fields that can be set and are neither excluded nor file-like,
  map keys and values, elements and interfaces) and every field of it that can be set
  and is not excluded, a file-like string that differs from the expected one has a
  failure reported, with the value, at a place that ends with the name of the field; and
  each string of a file-like slice of strings that differs has one, at a place that ends
  with the name of the field and the index. On the root whose slice holds four elements,
  the second and the fourth with a wrong file, whatever the files are, the failures are
  two, for the indices 1 and 3.
\<close>

theorem AssertFile_reports_every_mismatch:
  assumes "AssertFile n ev (Some l) w options h = Inr r"
    and "(edge (fileWalked (applyOptions options)) h)\<^sup>*\<^sup>* (l, False) (p, True)"
    and "h p = Some (NStruct t fs pr)" and "(name, vf) \<in> set fs"
    and "exported name" and "\<not> excl (applyOptions options) (t, name)"
    and "h vf = Some fnode"
  shows "(fst r = (reported (snd r) = []))
       \<and> (\<forall>f \<in> set (reported (snd r)). snd (snd f) = w \<and> fst (snd f) \<noteq> w)
       \<and> (is_stringTyp fnode \<and> (hasSuffix name ''File'' \<or> incl (applyOptions options) (t, name))
            \<and> stringOf fnode \<noteq> w \<longrightarrow>
           (\<exists>path. (path @ ''.'' @ name, stringOf fnode, w) \<in> set (reported (snd r))))
       \<and> (is_stringSliceTyp fnode
            \<and> (hasSuffix name ''Files'' \<or> incl (applyOptions options) (t, name)) \<longrightarrow>
           (\<forall>j < length (stringsOf fnode). stringsOf fnode ! j \<noteq> w \<longrightarrow>
              (\<exists>path. (path @ ''.'' @ name @ ''['' @ showNat j @ '']'', stringsOf fnode ! j, w)
                  \<in> set (reported (snd r)))))
       \<and> (\<forall>v1 v3. v1 \<noteq> w \<and> v3 \<noteq> w \<longrightarrow>
            (case AssertFile 9 testEnv (Some 0) w [] (fourStore w v1 v3) of
               Inl e \<Rightarrow> False
             | Inr r \<Rightarrow> \<not> fst r \<and> reported (snd r) =
                 [(''(*configtest.root).Slice[1].(*configtest.fooSetter).FooFile'', v1, w),
                  (''(*configtest.root).Slice[3].(*configtest.fooSetter).FooFile'', v3, w)]))"
proof -
  from assms(1) obtain ty where
    run: "assertFile n ev w (applyOptions options) (''('' @ ty @ '')'') l False (newState h) = Inr r"
    by (auto simp: AssertFile_def split: sum.splits)
  from assertFile_rel[OF run] have rel: "accRel w (True, newState h) r" .
  then have 1: "fst r = (reported (snd r) = [])"
    and 2: "\<forall>f \<in> set (reported (snd r)). snd (snd f) = w \<and> fst (snd f) \<noteq> w"
    by (auto simp: accRel_def newState_def)
  from AssertFile_settles[OF assms(1,2)]
  have "fileReported (applyOptions options) h w (snd r) (p, True)" by (simp add: settled_def)
  then have "fieldReported (applyOptions options) h w (snd r) t (name, vf)"
    using assms(3-6) by (auto simp: fileReported_def)
  then have 3: "is_stringTyp fnode \<and> (hasSuffix name ''File'' \<or> incl (applyOptions options) (t, name))
            \<and> stringOf fnode \<noteq> w \<longrightarrow>
           (\<exists>path. (path @ ''.'' @ name, stringOf fnode, w) \<in> set (reported (snd r)))"
    and 4: "is_stringSliceTyp fnode
            \<and> (hasSuffix name ''Files'' \<or> incl (applyOptions options) (t, name)) \<longrightarrow>
           (\<forall>j < length (stringsOf fnode). stringsOf fnode ! j \<noteq> w \<longrightarrow>
              (\<exists>path. (path @ ''.'' @ name @ ''['' @ showNat j @ '']'', stringsOf fnode ! j, w)
                  \<in> set (reported (snd r))))"
    using assms(7) by (simp_all add: fieldReported_def)
  have 5: "\<forall>v1 v3. v1 \<noteq> w \<and> v3 \<noteq> w \<longrightarrow>
            (case AssertFile 9 testEnv (Some 0) w [] (fourStore w v1 v3) of
               Inl e \<Rightarrow> False
             | Inr r \<Rightarrow> \<not> fst r \<and> reported (snd r) =
                 [(''(*configtest.root).Slice[1].(*configtest.fooSetter).FooFile'', v1, w),
                  (''(*configtest.root).Slice[3].(*configtest.fooSetter).FooFile'', v3, w)])"
    using AssertFile_four by blast
  from 1 2 3 4 5 show ?thesis by blast
qed

theorem AssertFile_reports_every_mismatch_witness:
  "(case AssertFile 9 testEnv (Some 0) ''/data/foo/bar/hello/file'' [] sliceStore of
      Inl e \<Rightarrow> False
    | Inr r \<Rightarrow> \<not> fst r
        \<and> (\<exists>path. (path @ ''.FooFile'', ''hello/file'', ''/data/foo/bar/hello/file'')
              \<in> set (reported (snd r))))"
proof -
  let ?W = "fileWalked (applyOptions [])"
  have run: "(case AssertFile 9 testEnv (Some 0) ''/data/foo/bar/hello/file'' [] sliceStore of
      Inl e \<Rightarrow> False | Inr r \<Rightarrow> \<not> fst r)"
    by code_simp
  have e1: "edge ?W sliceStore (0, False) (1, True)"
    by (rule edge.ptr[where t = "''*configtest.root''"]) (simp add: sliceStore_def)
  have e2: "edge ?W sliceStore (1, True) (5, True)"
    by (rule edge.field[where name = "''Slice''" and t = "''configtest.root''" and pr = "[]"
          and fs = "[(''Child'', 2), (''Cyclic'', 3), (''Map'', 4), (''Slice'', 5), (''RootFile'', 6)]"
          and fnode = "NSlice ''configtest.setterSlice'' (Some [10, 20, 30, 40])"])
      (simp_all add: sliceStore_def exported_def isUpper_def fileWalked_def applyOptions_def
        noFields_def)
  have "edge ?W sliceStore (5, True) ([10, 20, 30, 40] ! 1, True)"
    by (rule edge.slice[where t = "''configtest.setterSlice''"]) (simp_all add: sliceStore_def)
  then have e3: "edge ?W sliceStore (5, True) (20, True)" by simp
  have e4: "edge ?W sliceStore (20, True) (21, False)"
    by (rule edge.iface[where t = "''config.DirectorySetter''"])
      (simp add: sliceStore_def fooIn_def)
  have e5: "edge ?W sliceStore (21, False) (22, True)"
    by (rule edge.ptr[where t = "''*configtest.fooSetter''"]) (simp add: sliceStore_def fooIn_def)
  have "(edge ?W sliceStore)\<^sup>*\<^sup>* (0, False) (1, True)" using e1 by (rule r_into_rtranclp)
  then have "(edge ?W sliceStore)\<^sup>*\<^sup>* (0, False) (5, True)"
    using e2 by (rule rtranclp.rtrancl_into_rtrancl)
  then have "(edge ?W sliceStore)\<^sup>*\<^sup>* (0, False) (20, True)"
    using e3 by (rule rtranclp.rtrancl_into_rtrancl)
  then have "(edge ?W sliceStore)\<^sup>*\<^sup>* (0, False) (21, False)"
    using e4 by (rule rtranclp.rtrancl_into_rtrancl)
  then have reach: "(edge ?W sliceStore)\<^sup>*\<^sup>* (0, False) (22, True)"
    using e5 by (rule rtranclp.rtrancl_into_rtrancl)
  show ?thesis
  proof (cases "AssertFile 9 testEnv (Some 0) ''/data/foo/bar/hello/file'' [] sliceStore")
    case (Inl e)
    then show ?thesis using run by simp
  next
    case (Inr r)
    have "is_stringTyp (NString ''string'' ''hello/file'')
        \<and> (hasSuffix ''FooFile'' ''File'' \<or> incl (applyOptions []) (''configtest.fooSetter'', ''FooFile''))
        \<and> stringOf (NString ''string'' ''hello/file'') \<noteq> ''/data/foo/bar/hello/file'' \<longrightarrow>
       (\<exists>path. (path @ ''.'' @ ''FooFile'', stringOf (NString ''string'' ''hello/file''),
                 ''/data/foo/bar/hello/file'') \<in> set (reported (snd r)))"
    proof -
      have a3: "sliceStore 22 = Some (NStruct ''configtest.fooSetter''
          [(''Foo'', 23), (''FooFile'', 24), (''Extra'', 25), (''Disable'', 26)] [])"
        by (simp add: sliceStore_def fooIn_def)
      have a4: "(''FooFile'', 24) \<in> set [(''Foo'', 23), (''FooFile'', 24), (''Extra'', 25), (''Disable'', 26)]"
        by simp
      have a5: "exported ''FooFile''" by (simp add: exported_def isUpper_def)
      have a6: "\<not> excl (applyOptions []) (''configtest.fooSetter'', ''FooFile'')"
        by (simp add: applyOptions_def noFields_def)
      have a7: "sliceStore 24 = Some (NString ''string'' ''hello/file'')"
        by (simp add: sliceStore_def fooIn_def)
      from AssertFile_reports_every_mismatch[OF Inr reach a3 a4 a5 a6 a7]
      show ?thesis by (rule conjunct1[OF conjunct2[OF conjunct2]])
    qed
    then show ?thesis using Inr run by (simp add: stringTyp_def hasSuffix_def)
  qed
qed


section \<open>Termination, and the pointers descended into\<close>

lemma count_list_distinct: "distinct xs \<Longrightarrow> x \<in> set xs \<Longrightarrow> count_list xs x = 1"
  by (induction xs) auto

lemma selfSlice_heap:
  "selfSlice 1 = Some (NStruct ''configtest.node'' [(''Self'', 2), (''Next'', 3)] [])"
  "selfSlice 2 = Some (NPtr ''*configtest.node'' (Some 1))"
  "selfSlice 3 = Some (NSlice ''[]configtest.node'' (Some [1]))"
  "selfSlice 0 = Some (NPtr ''*configtest.node'' (Some 1))"
  by (simp_all add: selfSlice_def)

lemma selfSlice_setFile_loops:
  assumes "heap s = selfSlice" and "(''*configtest.node'', 1) \<in> set (seen s)"
  shows "setFile n file noFields 1 True s = Inl OutOfFuel
       \<and> setFile n file noFields 3 True s = Inl OutOfFuel"
  using assms
proof (induction n arbitrary: s)
  case 0
  show ?case by (simp add: setFile_0)
next
  case (Suc n)
  have h1: "heap s 1 = Some (NStruct ''configtest.node'' [(''Self'', 2), (''Next'', 3)] [])"
    and h2: "heap s 2 = Some (NPtr ''*configtest.node'' (Some 1))"
    and h3: "heap s 3 = Some (NSlice ''[]configtest.node'' (Some [1]))"
    using Suc.prems(1) selfSlice_heap by simp_all
  from Suc.IH[OF Suc.prems] have ih1: "setFile n file noFields 1 True s = Inl OutOfFuel"
    and ih3: "setFile n file noFields 3 True s = Inl OutOfFuel" by simp_all
  have "setFile (Suc n) file noFields 3 True s
      = forEach (eachElem (setFile n file noFields) 3 True) [0..<length [1::nat]] s"
    by (rule setFile_slice[OF h3])
  also have "\<dots> = Inl OutOfFuel"
    using h3 ih1 by (simp add: eachElem_def seqIndex_def)
  finally have at3: "setFile (Suc n) file noFields 3 True s = Inl OutOfFuel" .
  have self: "setFile n file noFields 2 True s = Inl OutOfFuel \<or> setFile n file noFields 2 True s = Inr s"
  proof (cases n)
    case 0
    then show ?thesis by (simp add: setFile_0)
  next
    case (Suc k)
    have "setFile (Suc k) file noFields 2 True s
        = (if (''*configtest.node'', 1) \<in> set (seen s) then Inr s
           else setFile k file noFields 1 True (s\<lparr>seen := (''*configtest.node'', 1) # seen s\<rparr>))"
      by (rule setFile_ptr[OF h2])
    then show ?thesis using Suc Suc.prems(2) by simp
  qed
  have "setFile (Suc n) file noFields 1 True s
      = forEach (setFile_field (setFile n file noFields) file noFields ''configtest.node''
          (byName [(''Self'', 2), (''Next'', 3)] []) True) [(''Self'', 2), (''Next'', 3)] s"
    by (rule setFile_struct[OF h1])
  also have "\<dots> = Inl OutOfFuel"
    using self h2 h3 ih3
    by (auto simp: setFile_field_def noFields_def exported_def isUpper_def)
  finally have at1: "setFile (Suc n) file noFields 1 True s = Inl OutOfFuel" .
  from at1 at3 show ?case by simp
qed

text \<open>On the struct in a slice that holds the slice again, the walk of \<open>SetFile\<close> never
  ends, although the value has a pointer to itself and the pointer is in the set of seen
  keys: the set holds pointers only, and the cycle through the slice has none. Whatever
  the fuel, the model runs out of it; the program recurses until its stack is exhausted.\<close>

theorem SetFile_loops_through_slice:
  "selfSlice 2 = Some (NPtr ''*configtest.node'' (Some 1))
   \<and> (\<forall>n. SetFile n (Some 0) ''hello/file'' [] selfSlice = Inl OutOfFuel)
   \<and> \<not> halts (\<lambda>n. SetFile n (Some 0) ''hello/file'' [] selfSlice)"
proof -
  have run: "SetFile n (Some 0) ''hello/file'' [] selfSlice = Inl OutOfFuel" for n
  proof (cases n)
    case 0
    then show ?thesis by (simp add: SetFile_def setFile_0)
  next
    case (Suc k)
    have h0: "heap (newState selfSlice) 0 = Some (NPtr ''*configtest.node'' (Some 1))"
      by (simp add: newState_def selfSlice_heap)
    have deep: "setFile k ''hello/file'' noFields 1 True
            ((newState selfSlice)\<lparr>seen := (''*configtest.node'', 1) # seen (newState selfSlice)\<rparr>)
          = Inl OutOfFuel"
      using selfSlice_setFile_loops[of "(newState selfSlice)\<lparr>seen := (''*configtest.node'', 1)
          # seen (newState selfSlice)\<rparr>" k "''hello/file''"]
      by (simp add: newState_def)
    have "setFile (Suc k) ''hello/file'' noFields 0 False (newState selfSlice)
        = (if (''*configtest.node'', 1) \<in> set (seen (newState selfSlice)) then Inr (newState selfSlice)
           else setFile k ''hello/file'' noFields 1 True
                  ((newState selfSlice)\<lparr>seen := (''*configtest.node'', 1)
                     # seen (newState selfSlice)\<rparr>))"
      by (rule setFile_ptr[OF h0])
    also have "\<dots> = Inl OutOfFuel" using deep by (simp add: newState_def)
    finally show ?thesis
      using Suc by (simp add: SetFile_def applyOptions_def)
  qed
  then have "\<not> halts (\<lambda>n. SetFile n (Some 0) ''hello/file'' [] selfSlice)"
    by (auto simp: halts_def)
  with run show ?thesis by (simp add: selfSlice_heap)
qed

lemma SetFile_settles:
  assumes run: "SetFile n (Some l) file options h = Inr s"
    and reach: "(edge (fileWalked (applyOptions options)) h)\<^sup>*\<^sup>* (l, False) y"
  shows "ptrSeen h s y \<and> distinct (seen s)"
proof -
  from run have run': "setFile n file (applyOptions options) l False (newState h) = Inr s"
    by (simp add: SetFile_def)
  have "shapeEq h (heap (newState h))" by (simp add: newState_def)
  from setFile_cover[OF this run']
  have st: "walkStep (fileWalked (applyOptions options)) (applyOptions options) h None (newState h) s"
    and c: "covered (fileWalked (applyOptions options)) (applyOptions options) h None s (l, False)"
    by simp_all
  from st have closed: "covered (fileWalked (applyOptions options)) (applyOptions options) h None
              s (q, True)" if "(t, q) \<in> set (seen s)" for t q
    using that by (simp add: walkStep_def covStep_def newState_def)
  have "covered (fileWalked (applyOptions options)) (applyOptions options) h None s y"
    by (rule covered_reach[OF c closed reach])
  then have "ptrSeen h s y" using covered_self by (auto simp: settled_def)
  moreover from setFile_post[OF run'] have "distinct (seen s)"
    by (auto simp: setFile_post_def intro: seenExt_newState)
  ultimately show ?thesis by simp
qed

lemma SetDirectory_settles:
  assumes cap: "capWritesStrings ev"
    and run: "SetDirectory n ev (Some l) dir h = Inr s"
    and reach: "(edge allWalked h)\<^sup>*\<^sup>* (l, False) y"
  shows "ptrSeen h s y \<and> distinct (seen s)"
proof -
  from run have run': "setDirectory n ev dir l False (newState h) = Inr s"
    by (simp add: SetDirectory_def)
  have "shapeEq h (heap (newState h))" by (simp add: newState_def)
  from setDirectory_cover[OF cap this run', of noFields]
  have st: "walkStep allWalked noFields h None (newState h) s"
    and c: "covered allWalked noFields h None s (l, False)"
    by simp_all
  from st have closed: "covered allWalked noFields h None s (q, True)"
    if "(t, q) \<in> set (seen s)" for t q
    using that by (simp add: walkStep_def covStep_def newState_def)
  have "covered allWalked noFields h None s y"
    by (rule covered_reach[OF c closed reach])
  then have "ptrSeen h s y" using covered_self by (auto simp: settled_def)
  moreover from setDirectory_post[OF cap run'] have "distinct (seen s)"
    by (auto simp: setDirectory_post_def intro: seenExt_newState)
  ultimately show ?thesis by simp
qed

lemma ptrSeen_once:
  assumes "ptrSeen h s y" and "distinct (seen s)"
  shows "\<forall>t q. h (fst y) = Some (NPtr t (Some q)) \<longrightarrow> count_list (seen s) (t, q) = 1"
  using assms by (auto simp: ptrSeen_def count_list_distinct)

text \<open>
  Claim C4, amended. A reference cycle alone does not make the operations terminate: the
  set of seen keys holds pointers only, so a cycle that passes through no pointer (a
  slice whose elements hold the slice again) is walked for ever, also when the value has
  pointers to itself. On a finite store where every cycle passes through a pointer
  (\<open>ranked\<close>: holding other than through a pointer goes down a rank), each of \<open>SetFile\<close>,
  \<open>AssertFile\<close> and \<open>SetDirectory\<close> terminates (with a result or with a panic; for
  \<open>SetDirectory\<close>, when the capability rewrites strings only), and when it returns, every
  pointer that can be reached from the root by the steps of its walk was descended into
  exactly once in that call: its key stands once in the set of seen keys.
\<close>

theorem walks_terminate_where_cycles_have_pointers:
  assumes "finite (dom h)" and "ranked rk h" and "capWritesStrings ev"
  shows "halts (\<lambda>n. SetFile n (Some l) file options h)
       \<and> halts (\<lambda>n. AssertFile n ev (Some l) file options h)
       \<and> halts (\<lambda>n. SetDirectory n ev (Some l) dir h)
       \<and> (\<forall>n s y t q. SetFile n (Some l) file options h = Inr s
             \<and> (edge (fileWalked (applyOptions options)) h)\<^sup>*\<^sup>* (l, False) y
             \<and> h (fst y) = Some (NPtr t (Some q)) \<longrightarrow> count_list (seen s) (t, q) = 1)
       \<and> (\<forall>n r y t q. AssertFile n ev (Some l) file options h = Inr r
             \<and> (edge (fileWalked (applyOptions options)) h)\<^sup>*\<^sup>* (l, False) y
             \<and> h (fst y) = Some (NPtr t (Some q)) \<longrightarrow> count_list (seen (snd r)) (t, q) = 1)
       \<and> (\<forall>n s y t q. SetDirectory n ev (Some l) dir h = Inr s
             \<and> (edge allWalked h)\<^sup>*\<^sup>* (l, False) y
             \<and> h (fst y) = Some (NPtr t (Some q)) \<longrightarrow> count_list (seen s) (t, q) = 1)"
proof -
  have fin: "finite (dom (heap (newState h)))" and rk: "ranked rk (heap (newState h))"
    using assms(1,2) by (simp_all add: newState_def)
  have 1: "halts (\<lambda>n. SetFile n (Some l) file options h)"
    using setFile_halts[OF fin rk] by (simp add: SetFile_def)
  have "halts (\<lambda>n. case ifaceType n h l of Inl e \<Rightarrow> Inl e
          | Inr ty \<Rightarrow> assertFile n ev file (applyOptions options) (''('' @ ty @ '')'') l False
                       (newState h))"
    by (rule halts_bind[OF ifaceType_halts[OF assms(2)]]) (rule assertFile_halts[OF fin rk])
  then have 2: "halts (\<lambda>n. AssertFile n ev (Some l) file options h)"
    by (simp add: AssertFile_def)
  have 3: "halts (\<lambda>n. SetDirectory n ev (Some l) dir h)"
    using setDirectory_halts[OF fin rk assms(3)] by (simp add: SetDirectory_def)
  have 4: "\<forall>n s y t q. SetFile n (Some l) file options h = Inr s
             \<and> (edge (fileWalked (applyOptions options)) h)\<^sup>*\<^sup>* (l, False) y
             \<and> h (fst y) = Some (NPtr t (Some q)) \<longrightarrow> count_list (seen s) (t, q) = 1"
    using SetFile_settles ptrSeen_once by blast
  have 5: "\<forall>n r y t q. AssertFile n ev (Some l) file options h = Inr r
             \<and> (edge (fileWalked (applyOptions options)) h)\<^sup>*\<^sup>* (l, False) y
             \<and> h (fst y) = Some (NPtr t (Some q)) \<longrightarrow> count_list (seen (snd r)) (t, q) = 1"
  proof (intro allI impI)
    fix n r y t q
    assume a: "AssertFile n ev (Some l) file options h = Inr r
             \<and> (edge (fileWalked (applyOptions options)) h)\<^sup>*\<^sup>* (l, False) y
             \<and> h (fst y) = Some (NPtr t (Some q))"
    from a have ar: "AssertFile n ev (Some l) file options h = Inr r"
      and re: "(edge (fileWalked (applyOptions options)) h)\<^sup>*\<^sup>* (l, False) y" by simp_all
    from AssertFile_settles[OF ar re]
    have "ptrSeen h (snd r) y" "distinct (seen (snd r))" by (simp_all add: settled_def)
    from ptrSeen_once[OF this] a show "count_list (seen (snd r)) (t, q) = 1" by simp
  qed
  have 6: "\<forall>n s y t q. SetDirectory n ev (Some l) dir h = Inr s
             \<and> (edge allWalked h)\<^sup>*\<^sup>* (l, False) y
             \<and> h (fst y) = Some (NPtr t (Some q)) \<longrightarrow> count_list (seen s) (t, q) = 1"
    using SetDirectory_settles[OF assms(3)] ptrSeen_once by blast
  from 1 2 3 4 5 6 show ?thesis by blast
qed

theorem walks_terminate_where_cycles_have_pointers_witness:
  "halts (\<lambda>n. SetFile n (Some 0) ''hello/file'' [] cycStore)
   \<and> halts (\<lambda>n. AssertFile n testEnv (Some 0) ''hello/file'' [] cycStore)
   \<and> halts (\<lambda>n. SetDirectory n testEnv (Some 0) ''/data'' cycStore)
   \<and> (case SetDirectory 5 testEnv (Some 0) ''/data'' cycStore of
        Inl e \<Rightarrow> False
      | Inr s \<Rightarrow> count_list (seen s) (''*configtest.cyclic'', 1) = 1)"
proof -
  have fin: "finite (dom cycStore)" by (simp add: cycStore_def)
  have rk: "ranked (\<lambda>l. if l = 1 then 1 else 0) cycStore"
    by (auto simp: ranked_def cycStore_def split: if_splits)
  note main = walks_terminate_where_cycles_have_pointers[OF fin rk capWritesStrings_testEnv,
      of 0 "''hello/file''" "[]" "''/data''"]
  have e1: "edge allWalked cycStore (0, False) (1, True)"
    by (rule edge.ptr[where t = "''*configtest.cyclic''"]) (simp add: cycStore_def)
  have e2: "edge allWalked cycStore (1, True) (2, True)"
    by (rule edge.field[where name = "''Self''" and t = "''configtest.cyclic''" and pr = "[]"
          and fs = "[(''Self'', 2), (''CyclicFile'', 3)]"
          and fnode = "NPtr ''*configtest.cyclic'' (Some 1)"])
      (simp_all add: cycStore_def exported_def isUpper_def allWalked_def)
  have "(edge allWalked cycStore)\<^sup>*\<^sup>* (0, False) (1, True)" using e1 by (rule r_into_rtranclp)
  then have reach: "(edge allWalked cycStore)\<^sup>*\<^sup>* (0, False) (2, True)"
    using e2 by (rule rtranclp.rtrancl_into_rtrancl)
  have p2: "cycStore (fst (2, True)) = Some (NPtr ''*configtest.cyclic'' (Some 1))"
    by (simp add: cycStore_def)
  have run: "(case SetDirectory 5 testEnv (Some 0) ''/data'' cycStore of
        Inl e \<Rightarrow> False | Inr s \<Rightarrow> True)"
    by code_simp
  have "(case SetDirectory 5 testEnv (Some 0) ''/data'' cycStore of
        Inl e \<Rightarrow> False
      | Inr s \<Rightarrow> count_list (seen s) (''*configtest.cyclic'', 1) = 1)"
  proof (cases "SetDirectory 5 testEnv (Some 0) ''/data'' cycStore")
    case (Inl e)
    then show ?thesis using run by simp
  next
    case (Inr s)
    from main have "\<forall>n s y t q. SetDirectory n testEnv (Some 0) ''/data'' cycStore = Inr s
             \<and> (edge allWalked cycStore)\<^sup>*\<^sup>* (0, False) y
             \<and> cycStore (fst y) = Some (NPtr t (Some q)) \<longrightarrow> count_list (seen s) (t, q) = 1"
      by (rule conjunct2[OF conjunct2[OF conjunct2[OF conjunct2[OF conjunct2]]]])
    with Inr reach p2 show ?thesis by fastforce
  qed
  with main show ?thesis by simp
qed


end
